theory Spec2Isabelle
  imports Main "HOL-Library.Word" "HOL-Library.Monad_Syntax"
begin

unbundle bit_operations_syntax

section \<open>Go strings and the library calls of the parsers\<close>

text \<open>
  A Go string is a sequence of bytes: \<open>len\<close> counts bytes and \<open>s[i]\<close> reads one.
  It is modelled by \<^typ>\<open>string\<close>, whose characters are bytes. The library
  functions that decode runes (\<open>strings.TrimSpace\<close>, \<open>fmt.Sscanf\<close>) read UTF-8, so
  the white space they skip is described by its encodings.
\<close>

type_synonym byte = "8 word"

definition ord :: "char \<Rightarrow> nat" where
  "ord c = of_char c"

text \<open>\<open>strings.Split(s, sep)\<close> for a separator of one byte: always at least one field.\<close>

fun Split :: "string \<Rightarrow> char \<Rightarrow> string list" where
  "Split [] sep = [[]]"
| "Split (c # cs) sep =
     (if c = sep then [] # Split cs sep
      else (case Split cs sep of f # fs \<Rightarrow> (c # f) # fs | [] \<Rightarrow> [[c]]))"

text \<open>
  The white space of \<open>unicode.IsSpace\<close> and of package fmt: U+0009..U+000D, U+0020,
  U+0085, U+00A0, U+1680, U+2000..U+200A, U+2028, U+2029, U+202F, U+205F, U+3000.
  \<open>space_width s\<close> is the number of bytes of a white-space rune at the start of \<open>s\<close>,
  and 0 when \<open>s\<close> does not start with one.
\<close>

definition ascii_space :: "char \<Rightarrow> bool" where
  "ascii_space c = ((9 \<le> ord c \<and> ord c \<le> 13) \<or> ord c = 32)"

definition space3 :: "nat \<Rightarrow> nat \<Rightarrow> nat \<Rightarrow> bool" where
  "space3 a b c =
     ((a = 0xE1 \<and> b = 0x9A \<and> c = 0x80) \<or>
      (a = 0xE2 \<and> b = 0x80 \<and> ((0x80 \<le> c \<and> c \<le> 0x8A) \<or> c = 0xA8 \<or> c = 0xA9 \<or> c = 0xAF)) \<or>
      (a = 0xE2 \<and> b = 0x81 \<and> c = 0x9F) \<or>
      (a = 0xE3 \<and> b = 0x80 \<and> c = 0x80))"

definition space2 :: "nat \<Rightarrow> nat \<Rightarrow> bool" where
  "space2 a b = (a = 0xC2 \<and> (b = 0x85 \<or> b = 0xA0))"

fun space_width :: "string \<Rightarrow> nat" where
  "space_width [] = 0"
| "space_width [a] = (if ascii_space a then 1 else 0)"
| "space_width [a, b] =
     (if ascii_space a then 1 else if space2 (ord a) (ord b) then 2 else 0)"
| "space_width (a # b # c # rest) =
     (if ascii_space a then 1 else if space2 (ord a) (ord b) then 2
      else if space3 (ord a) (ord b) (ord c) then 3 else 0)"

text \<open>The same read from the end, as \<open>utf8.DecodeLastRuneInString\<close> finds the last rune.\<close>

definition space_width_end :: "string \<Rightarrow> nat" where
  "space_width_end s =
     (case rev s of
        [] \<Rightarrow> 0
      | [a] \<Rightarrow> if ascii_space a then 1 else 0
      | [b, a] \<Rightarrow> if ascii_space b then 1 else if space2 (ord a) (ord b) then 2 else 0
      | c # b # a # rest \<Rightarrow>
          if ascii_space c then 1 else if space2 (ord b) (ord c) then 2
          else if space3 (ord a) (ord b) (ord c) then 3 else 0)"

lemma space_width_decreases: "0 < space_width s \<Longrightarrow> length s - space_width s < length s"
  by (cases s) auto

function TrimLeftSpace :: "string \<Rightarrow> string" where
  "TrimLeftSpace s = (if space_width s = 0 then s else TrimLeftSpace (drop (space_width s) s))"
  by pat_completeness auto
termination
  by (relation "measure length") (auto intro: space_width_decreases)

function TrimRightSpace :: "string \<Rightarrow> string" where
  "TrimRightSpace s =
     (if space_width_end s = 0 \<or> s = [] then s
      else TrimRightSpace (take (length s - space_width_end s) s))"
  by pat_completeness auto
termination
  by (relation "measure length") auto

declare TrimLeftSpace.simps [simp del] TrimRightSpace.simps [simp del]

definition TrimSpace :: "string \<Rightarrow> string" where
  "TrimSpace s = TrimRightSpace (TrimLeftSpace s)"

text \<open>\<open>strings.Trim(s, cutset)\<close> for a cutset of ASCII bytes, and \<open>strings.HasPrefix\<close>.\<close>

definition Trim :: "string \<Rightarrow> string \<Rightarrow> string" where
  "Trim s cutset =
     rev (dropWhile (\<lambda>c. c \<in> set cutset) (rev (dropWhile (\<lambda>c. c \<in> set cutset) s)))"

definition HasPrefix :: "string \<Rightarrow> string \<Rightarrow> bool" where
  "HasPrefix s p = (take (length p) s = p)"


subsection \<open>\<open>fmt.Sscanf(p, "%x", &b)\<close> with \<open>b\<close> a byte\<close>

text \<open>
  The verb \<open>%x\<close> on an unsigned integer: leading white space is skipped (a newline
  there is an error), then the longest run of hexadecimal digits is read and must not be
  empty. The rest of the input is left unread and is not an error: \<open>Sscanf\<close> reports
  \<open>n = 1\<close> as soon as the operand is stored. \<open>Inr b\<close> stands for \<open>n = 1\<close> with \<open>b\<close>
  stored, \<open>Inl e\<close> for \<open>n = 0\<close> with the error \<open>e\<close>.
\<close>

datatype scan_error = UnexpectedEOF | UnexpectedNewline | ExpectedInteger | IntegerOverflow

definition hexval :: "char \<Rightarrow> nat option" where
  "hexval c =
     (if 48 \<le> ord c \<and> ord c \<le> 57 then Some (ord c - 48)
      else if 97 \<le> ord c \<and> ord c \<le> 102 then Some (ord c - 87)
      else if 65 \<le> ord c \<and> ord c \<le> 70 then Some (ord c - 55)
      else None)"

definition is_hex :: "char \<Rightarrow> bool" where
  "is_hex c = (hexval c \<noteq> None)"

definition hex_number :: "string \<Rightarrow> nat" where
  "hex_number ds = foldl (\<lambda>acc c. 16 * acc + (case hexval c of Some v \<Rightarrow> v | None \<Rightarrow> 0)) 0 ds"

function SkipSpace :: "string \<Rightarrow> scan_error + string" where
  "SkipSpace s =
     (if space_width s = 0 then Inr s
      else if take 1 s = [CHR 0x0A] then Inl UnexpectedNewline
      else SkipSpace (drop (space_width s) s))"
  by pat_completeness auto
termination
  by (relation "measure length") (auto intro: space_width_decreases)

declare SkipSpace.simps [simp del]

definition Sscanf_x :: "string \<Rightarrow> scan_error + byte" where
  "Sscanf_x p =
     (case SkipSpace p of
        Inl e \<Rightarrow> Inl e
      | Inr r \<Rightarrow>
          if r = [] then Inl UnexpectedEOF
          else if takeWhile is_hex r = [] then Inl ExpectedInteger
          else if hex_number (takeWhile is_hex r) < 256
            then Inr (of_nat (hex_number (takeWhile is_hex r)))
          else Inl IntegerOverflow)"

section \<open>hardwareaddr.go\<close>

text \<open>\<open>type HardwareAddr [3]byte\<close>: three bytes, written and read by index.\<close>

type_synonym HardwareAddr = "byte \<times> byte \<times> byte"

definition hw_get :: "HardwareAddr \<Rightarrow> nat \<Rightarrow> byte" where
  "hw_get h i = (case h of (b0, b1, b2) \<Rightarrow> if i = 0 then b0 else if i = 1 then b1 else b2)"

definition hw_set :: "HardwareAddr \<Rightarrow> nat \<Rightarrow> byte \<Rightarrow> HardwareAddr" where
  "hw_set h i b =
     (case h of (b0, b1, b2) \<Rightarrow>
        if i = 0 then (b, b1, b2) else if i = 1 then (b0, b, b2) else (b0, b1, b))"

text \<open>
  The methods \<open>Local\<close> and \<open>Multicast\<close> of \<open>HardwareAddr\<close>; the fields of the same
  names belong to \<open>Entry\<close> below.
\<close>

definition HardwareAddr_Local :: "HardwareAddr \<Rightarrow> bool" where
  "HardwareAddr_Local h = (hw_get h 0 AND 2 > 0)"

definition HardwareAddr_Multicast :: "HardwareAddr \<Rightarrow> bool" where
  "HardwareAddr_Multicast h = (hw_get h 0 AND 1 > 0)"

text \<open>
  \<open>ErrInvalidMac{Reason, Mac}\<close>. The four reasons \<open>ParseMac\<close> formats are kept as
  data: the element's index as the message prints it (\<open>i+1\<close>), the element, and for a
  failed scan the error of \<open>Sscanf\<close>. \<open>ErrNotFound\<close> is the sentinel of oui.go.
\<close>

datatype reason =
    MacTooShort
  | TooFewElements
  | ElementNotTwoChars nat string
  | ElementNotHex nat string scan_error

datatype error = ErrInvalidMac reason string | ErrNotFound

text \<open>The elements when no separator is found: \<open>mac[i:i+2]\<close> for \<open>i = 0, 2, ... < len(mac)-1\<close>.\<close>

fun pairs :: "string \<Rightarrow> string list" where
  "pairs (a # b # rest) = [a, b] # pairs rest"
| "pairs _ = []"

definition elements :: "string \<Rightarrow> string list" where
  "elements mac =
     (if mac ! 2 = CHR '':'' \<or> mac ! 2 = CHR ''-'' then Split mac (mac ! 2) else pairs mac)"

text \<open>The loop \<open>for i, p := range s\<close> of \<open>ParseMac\<close>, from index \<open>i\<close> on.\<close>

fun decode :: "string \<Rightarrow> nat \<Rightarrow> string list \<Rightarrow> HardwareAddr \<Rightarrow> error + HardwareAddr" where
  "decode mac i [] hw = Inr hw"
| "decode mac i (p # ps) hw =
     (if i \<ge> 3 then Inr hw
      else if length p \<noteq> 2 then Inl (ErrInvalidMac (ElementNotTwoChars (i + 1) p) mac)
      else (case Sscanf_x p of
              Inl err \<Rightarrow> Inl (ErrInvalidMac (ElementNotHex (i + 1) p err) mac)
            | Inr b \<Rightarrow> decode mac (i + 1) ps (hw_set hw i b)))"

definition ParseMac :: "string \<Rightarrow> error + HardwareAddr" where
  "ParseMac mac =
     (if length mac < 6 then Inl (ErrInvalidMac MacTooShort mac)
      else if length (elements mac) < 3 then Inl (ErrInvalidMac TooFewElements mac)
      else decode mac 0 (elements mac) (0, 0, 0))"


section \<open>The pattern of \<open>scanOUI\<close>\<close>

text \<open>
  \<open>regexp.MustCompile\<close> is given
  \<^verbatim>\<open>((?:(?:[0-9a-zA-Z]{2})[-:]){2,5}(?:[0-9a-zA-Z]{2}))(?:/(\w{1,2}))?\<close>.
  The operators the pattern uses are a character class, concatenation, bounded greedy
  repetition \<open>{lo,hi}\<close> and the greedy option \<open>?\<close>. \<open>matches r s\<close> lists, in the
  order a backtracking search tries them, what is left of \<open>s\<close> after each way \<open>r\<close>
  matches at its start; Go's regexp returns the leftmost match and, there, the one such
  a search finds first.
\<close>

datatype rexp =
    Cls "char \<Rightarrow> bool"
  | Cat rexp rexp
  | Rep rexp nat nat
  | Opt rexp

fun repeat :: "(string \<Rightarrow> string list) \<Rightarrow> nat \<Rightarrow> nat \<Rightarrow> string \<Rightarrow> string list" where
  "repeat f lo 0 s = (if lo = 0 then [s] else [])"
| "repeat f lo (Suc hi) s =
     concat (map (repeat f (lo - 1) hi) (f s)) @ (if lo = 0 then [s] else [])"

primrec matches :: "rexp \<Rightarrow> string \<Rightarrow> string list" where
  "matches (Cls p) = (\<lambda>s. case s of [] \<Rightarrow> [] | c # cs \<Rightarrow> if p c then [cs] else [])"
| "matches (Cat a b) = (\<lambda>s. concat (map (matches b) (matches a s)))"
| "matches (Rep a lo hi) = repeat (matches a) lo hi"
| "matches (Opt a) = (\<lambda>s. matches a s @ [s])"

definition is_digit :: "char \<Rightarrow> bool" where
  "is_digit c = (48 \<le> ord c \<and> ord c \<le> 57)"

definition is_lower :: "char \<Rightarrow> bool" where
  "is_lower c = (97 \<le> ord c \<and> ord c \<le> 122)"

definition is_upper :: "char \<Rightarrow> bool" where
  "is_upper c = (65 \<le> ord c \<and> ord c \<le> 90)"

definition alnum :: "char \<Rightarrow> bool" where
  "alnum c = (is_digit c \<or> is_lower c \<or> is_upper c)"

definition sep :: "char \<Rightarrow> bool" where
  "sep c = (c = CHR ''-'' \<or> c = CHR '':'')"

definition word_char :: "char \<Rightarrow> bool" where
  "word_char c = (is_digit c \<or> is_upper c \<or> is_lower c \<or> c = CHR ''_'')"

text \<open>
  The first capture group of the pattern, built from \<open>[0-9a-zA-Z]{2}\<close> and
  \<open>[0-9a-zA-Z]{2}[-:]\<close>, and what follows the group.
\<close>

definition re_group :: rexp where
  "re_group = Rep (Cls alnum) 2 2"

definition re_block :: rexp where
  "re_block = Cat re_group (Cls sep)"

definition re_address :: rexp where
  "re_address = Cat (Rep re_block 2 5) re_group"

definition re_mask :: rexp where
  "re_mask = Opt (Cat (Cls (\<lambda>c. c = CHR ''/'')) (Rep (Cls word_char) 1 2))"

text \<open>
  The matches of the whole pattern at the start of \<open>s\<close>, in the order of the search:
  the text of the first group, and what is left of \<open>s\<close> after the match.
\<close>

definition match_here :: "string \<Rightarrow> (string \<times> string) list" where
  "match_here s =
     concat (map (\<lambda>r1. map (\<lambda>r2. (take (length s - length r1) s, r2)) (matches re_mask r1))
                 (matches re_address s))"

text \<open>
  \<open>matches[0][1]\<close> of \<open>re.FindAllStringSubmatch(s, -1)\<close>: the first group of the leftmost
  match, and \<open>None\<close> when \<open>len(matches) == 0\<close>.
\<close>

fun first_match :: "string \<Rightarrow> string option" where
  "first_match [] = (case match_here [] of [] \<Rightarrow> None | (g, r) # _ \<Rightarrow> Some g)"
| "first_match (c # cs) =
     (case match_here (c # cs) of [] \<Rightarrow> first_match cs | (g, r) # _ \<Rightarrow> Some g)"

section \<open>The entries and \<open>scanOUI\<close>\<close>

text \<open>
  \<open>type Entry struct\<close>. The field \<open>Address []string\<close> is a slice. Where no slice is
  shared it is the list of its elements, \<open>string list Entry\<close>; the type of the field is
  a parameter so that the same struct can hold a slice header where sharing matters.
\<close>

record 'a Entry =
  Manufacturer :: string
  Address :: 'a
  Prefix :: HardwareAddr
  Country :: string
  Local :: bool
  Multicast :: bool

type_synonym 'a ouiDB = "HardwareAddr \<rightharpoonup> 'a Entry"

definition local :: int where
  "local = 0x020000"

definition multicast :: int where
  "multicast = 0x010000"

definition TAB :: char where
  "TAB = CHR 0x09"

text \<open>
  What \<open>scanOUI\<close> does to the entry after the address lines: the country is the last
  address line, and the two flags are read from \<open>i := int(bt[0])<<16 | int(bt[1])<<8 |
  int(bt[2])\<close>, a value below \<open>2^24\<close>, so that no shift overflows an \<open>int\<close>.
\<close>

definition finish :: "HardwareAddr \<Rightarrow> string list Entry \<Rightarrow> string list Entry" where
  "finish bt e =
     (let e1 = (if length (Address e) > 0 then e\<lparr>Country := last (Address e)\<rparr> else e);
          i = push_bit 16 (uint (hw_get bt 0)) OR push_bit 8 (uint (hw_get bt 1)) OR uint (hw_get bt 2);
          e2 = (if i AND local \<noteq> 0 then e1\<lparr>Local := True\<rparr> else e1)
      in (if i AND multicast \<noteq> 0 then e2\<lparr>Multicast := True\<rparr> else e2))"

text \<open>
  \<open>scanOUI\<close> reads its input through a \<open>bufio.Scanner\<close>; the model takes the lines
  \<open>scanner.Text()\<close> yields, in order, and the end of the list is \<open>scanner.Scan()\<close>
  returning false. \<open>time.Parse\<close> with the layout \<open>"Mon, 2 Jan 2006 15:04:05 -0700"\<close> is
  the parameter \<open>parse\<close>: \<open>None\<close> is its error. The map \<open>db\<close> is written in place by the
  source, so the model returns it with the time and the error.

  \<open>scan\<close> is the outer loop and \<open>addresses\<close> the inner one, which reads from the same
  scanner: a line the inner loop has read is never seen by the outer loop.
\<close>

fun scan :: "(string \<Rightarrow> 't option) \<Rightarrow> string list \<Rightarrow> 't option \<Rightarrow> string list ouiDB
               \<Rightarrow> 't option \<times> string list ouiDB \<times> error option"
and addresses :: "(string \<Rightarrow> 't option) \<Rightarrow> HardwareAddr \<Rightarrow> string list Entry \<Rightarrow> string list
               \<Rightarrow> 't option \<Rightarrow> string list ouiDB
               \<Rightarrow> 't option \<times> string list ouiDB \<times> error option" where
  "scan parse [] generated db = (generated, db, None)"
| "scan parse (text # rest) generated db =
     (if length text = 0 \<or> hd text = CHR ''#'' then scan parse rest generated db
      else (case Split text TAB of
              [] \<Rightarrow> scan parse rest generated db
            | a0 # _ \<Rightarrow>
                if HasPrefix (TrimSpace a0) ''Generated: '' then
                  (case parse (drop 11 (TrimSpace a0)) of
                     Some t \<Rightarrow> scan parse rest (Some t) db
                   | None \<Rightarrow> scan parse rest generated db)
                else (case first_match a0 of
                        None \<Rightarrow> scan parse rest generated db
                      | Some s \<Rightarrow>
                          (case ParseMac s of
                             Inl err \<Rightarrow> (generated, db, Some err)
                           | Inr bt \<Rightarrow>
                               addresses parse bt
                                 \<lparr>Manufacturer = last (Split text TAB), Address = [], Prefix = bt,
                                  Country = [], Local = False, Multicast = False\<rparr>
                                 rest generated db))))"
| "addresses parse bt e [] generated db = (generated, db(bt \<mapsto> finish bt e), None)"
| "addresses parse bt e (text # rest) generated db =
     (if length text < 2 then scan parse rest generated (db(bt \<mapsto> finish bt e))
      else if hd text \<noteq> TAB then addresses parse bt e rest generated db
      else addresses parse bt
             (e\<lparr>Address := Address e @ [Trim text [TAB, CHR '' '', CHR 0x0D, CHR 0x0A]]\<rparr>)
             rest generated db)"

definition scanOUI :: "(string \<Rightarrow> 't option) \<Rightarrow> string list \<Rightarrow> string list ouiDB
               \<Rightarrow> 't option \<times> string list ouiDB \<times> error option" where
  "scanOUI parse lines db = scan parse lines None db"


section \<open>The databases\<close>

text \<open>
  \<open>staticDB\<close> and \<open>updateableDB\<close> embed the map and keep the generation time; the zero
  \<open>time.Time\<close> is \<open>0\<close>. A map is a reference: the database made by \<open>newStatic(dst)\<close> or
  \<open>newDynamic(dst)\<close> and the \<open>dst\<close> that \<open>scanOUI\<close> fills are one map, so the database
  holds what \<open>scanOUI\<close> has written when it returns, error or not.
\<close>

record ('a, 't) staticDB =
  s_ouiDB :: "'a ouiDB"
  s_dbTime :: 't

text \<open>
  \<open>mu sync.RWMutex\<close>: in a run of one goroutine the lock is free or held by a writer,
  and the field \<open>mu\<close> says whether it is held. Acquiring a held lock never returns
  (nobody is left to release it): that is the value \<open>None\<close>.
\<close>

record ('a, 't) updateableDB =
  ouiDB :: "'a ouiDB"
  dbTime :: 't
  mu :: bool

definition Lock :: "('a, 't) updateableDB \<Rightarrow> ('a, 't) updateableDB option" where
  "Lock d = (if mu d then None else Some (d\<lparr>mu := True\<rparr>))"

definition Unlock :: "('a, 't) updateableDB \<Rightarrow> ('a, 't) updateableDB" where
  "Unlock d = d\<lparr>mu := False\<rparr>"

definition RLock :: "('a, 't) updateableDB \<Rightarrow> ('a, 't) updateableDB option" where
  "RLock d = (if mu d then None else Some d)"



text \<open>\<open>e, ok := o.ouiDB[hw]\<close> copies the struct out of the map; \<open>&e\<close> points to the copy.\<close>

definition staticDB_LookUp :: "('a, 't) staticDB \<Rightarrow> HardwareAddr \<Rightarrow> error + 'a Entry" where
  "staticDB_LookUp d hw = (case s_ouiDB d hw of None \<Rightarrow> Inl ErrNotFound | Some e \<Rightarrow> Inr e)"

definition staticDB_Query :: "('a, 't) staticDB \<Rightarrow> string \<Rightarrow> error + 'a Entry" where
  "staticDB_Query d mac =
     (case ParseMac mac of Inl err \<Rightarrow> Inl err | Inr hw \<Rightarrow> staticDB_LookUp d hw)"


definition LookUp :: "('a, 't) updateableDB \<Rightarrow> HardwareAddr \<Rightarrow> (error + 'a Entry) option" where
  "LookUp d hw =
     (case RLock d of
        None \<Rightarrow> None
      | Some d1 \<Rightarrow> Some (case ouiDB d1 hw of None \<Rightarrow> Inl ErrNotFound | Some e \<Rightarrow> Inr e))"

definition Query :: "('a, 't) updateableDB \<Rightarrow> string \<Rightarrow> (error + 'a Entry) option" where
  "Query d mac = (case ParseMac mac of Inl err \<Rightarrow> Some (Inl err) | Inr hw \<Rightarrow> LookUp d hw)"

definition generatedAt :: "('a, 't) updateableDB \<Rightarrow> 't option \<Rightarrow> ('a, 't) updateableDB option" where
  "generatedAt d t =
     (case t of
        None \<Rightarrow> Some d
      | Some v \<Rightarrow> (case Lock d of None \<Rightarrow> None | Some d1 \<Rightarrow> Some (Unlock (d1\<lparr>dbTime := v\<rparr>))))"

text \<open>
  \<open>updateDb\<close> calls \<open>generatedAt\<close> between its own \<open>Lock\<close> and \<open>Unlock\<close>.
\<close>

definition updateDb :: "('a, 't) updateableDB \<Rightarrow> 'a ouiDB \<Rightarrow> 't option \<Rightarrow> ('a, 't) updateableDB option" where
  "updateDb d db t =
     (case Lock d of
        None \<Rightarrow> None
      | Some d1 \<Rightarrow>
          (case generatedAt (d1\<lparr>ouiDB := db\<rparr>) t of
             None \<Rightarrow> None
           | Some d2 \<Rightarrow> Some (Unlock d2)))"



text \<open>
  \<open>Update\<close>: the new map is filled apart from the database; \<open>None\<close> is a call that
  never returns.
\<close>

definition Update :: "(string \<Rightarrow> 't option) \<Rightarrow> (string list, 't) updateableDB \<Rightarrow> string list
               \<Rightarrow> ((string list, 't) updateableDB \<times> error option) option" where
  "Update parse d lines =
     (case scanOUI parse lines Map.empty of
        (t, dst, Some err) \<Rightarrow> Some (d, Some err)
      | (t, dst, None) \<Rightarrow>
          (case updateDb d dst t of None \<Rightarrow> None | Some d' \<Rightarrow> Some (d', None)))"

section \<open>Slices and what a caller does to a returned entry\<close>

text \<open>
  Go's \<open>[]string\<close> is a header that points to a backing array; copying a struct copies
  the header and not the array. Where entries are copied and then written to, the field
  \<open>Address\<close> holds such a header (the capacity plays no part here) and the arrays live
  in a store, from the address of an array to its elements.
\<close>

record slice =
  array :: nat
  len :: nat










section \<open>Notions used by the statements\<close>

text \<open>\<open>arr[0]\<close> of \<open>scanOUI\<close>: the first tab-delimited field of a line.\<close>

definition first_field :: "string \<Rightarrow> string" where
  "first_field line = hd (Split line TAB)"

text \<open>
  An entry stored under the key \<open>k\<close> carries \<open>k\<close> as its prefix, and its flags are the
  bits \<open>0x02\<close> and \<open>0x01\<close> of the first byte of \<open>k\<close>.
\<close>

definition flagged :: "HardwareAddr \<Rightarrow> 'a Entry \<Rightarrow> bool" where
  "flagged k e =
     (Prefix e = k \<and> Local e = (fst k AND 2 \<noteq> 0) \<and> Multicast e = (fst k AND 1 \<noteq> 0))"

definition flags_ok :: "'a ouiDB \<Rightarrow> bool" where
  "flags_ok db = (\<forall>k e. db k = Some e \<longrightarrow> flagged k e)"

text \<open>
  A Generated line, the text after \<open>Generated: \<close>, and what such a line does to the
  generation time \<open>g\<close>: the parsed time replaces it, an error of \<open>time.Parse\<close> leaves
  it. Any other line leaves it.
\<close>

definition generated_line :: "string \<Rightarrow> bool" where
  "generated_line l = HasPrefix (TrimSpace (first_field l)) ''Generated: ''"

definition time_text :: "string \<Rightarrow> string" where
  "time_text l = drop 11 (TrimSpace (first_field l))"

definition gen_step :: "(string \<Rightarrow> 't option) \<Rightarrow> 't option \<Rightarrow> string \<Rightarrow> 't option" where
  "gen_step parse g l =
     (if generated_line l
      then (case parse (time_text l) of Some t \<Rightarrow> Some t | None \<Rightarrow> g)
      else g)"

text \<open>
  The lines that the outer loop reads. A line opens a record when it is neither empty, a
  comment nor a Generated line and \<open>ParseMac\<close> accepts the token of its first field;
  the inner loop then reads the lines that follow, up to and including the first one
  shorter than 2 characters. A line whose token \<open>ParseMac\<close> rejects is the last line
  read.
\<close>

definition opens_record :: "string \<Rightarrow> bool" where
  "opens_record l =
     (l \<noteq> [] \<and> hd l \<noteq> CHR ''#'' \<and> \<not> generated_line l \<and>
      (case first_match (first_field l) of
         None \<Rightarrow> False
       | Some s \<Rightarrow> (case ParseMac s of Inl err \<Rightarrow> False | Inr bt \<Rightarrow> True)))"

definition ends_scan :: "string \<Rightarrow> bool" where
  "ends_scan l =
     (l \<noteq> [] \<and> hd l \<noteq> CHR ''#'' \<and> \<not> generated_line l \<and>
      (case first_match (first_field l) of
         None \<Rightarrow> False
       | Some s \<Rightarrow> (case ParseMac s of Inl err \<Rightarrow> True | Inr bt \<Rightarrow> False)))"

fun outer_lines :: "string list \<Rightarrow> string list"
and inner_lines :: "string list \<Rightarrow> string list" where
  "outer_lines [] = []"
| "outer_lines (l # rest) =
     l # (if ends_scan l then [] else if opens_record l then inner_lines rest
          else outer_lines rest)"
| "inner_lines [] = []"
| "inner_lines (l # rest) = (if length l < 2 then outer_lines rest else inner_lines rest)"

text \<open>A run of lines that is empty or ends with an empty line: no record is left open.\<close>

definition closed_block :: "string list \<Rightarrow> bool" where
  "closed_block pre = (pre = [] \<or> last pre = [])"

text \<open>The byte that two hexadecimal digits write, the high digit first.\<close>

definition digit :: "char \<Rightarrow> nat" where
  "digit c = (case hexval c of Some v \<Rightarrow> v | None \<Rightarrow> 0)"

definition hex_pair :: "char \<Rightarrow> char \<Rightarrow> byte" where
  "hex_pair a b = of_nat (16 * digit a + digit b)"

text \<open>
  Tokens, in words: \<open>groups n t\<close> says that \<open>t\<close> is \<open>n\<close> groups of exactly two ASCII
  letters or digits with one \<open>-\<close> or \<open>:\<close> between neighbouring groups, and a token has
  3 to 6 groups.
\<close>

fun groups :: "nat \<Rightarrow> string \<Rightarrow> bool" where
  "groups 0 t = False"
| "groups (Suc 0) t = (case t of [a, b] \<Rightarrow> alnum a \<and> alnum b | _ \<Rightarrow> False)"
| "groups (Suc (Suc n)) t =
     (case t of a # b # c # rest \<Rightarrow> alnum a \<and> alnum b \<and> sep c \<and> groups (Suc n) rest
      | _ \<Rightarrow> False)"

definition is_token :: "string \<Rightarrow> bool" where
  "is_token t = (groups 3 t \<or> groups 4 t \<or> groups 5 t \<or> groups 6 t)"

text \<open>
  For the proofs: \<open>s\<close> starts with a group, with a group and a separator, with \<open>k\<close>
  groups each followed by a separator.
\<close>

definition pair_at :: "string \<Rightarrow> bool" where
  "pair_at s = (case s of a # b # _ \<Rightarrow> alnum a \<and> alnum b | _ \<Rightarrow> False)"

definition block_at :: "string \<Rightarrow> bool" where
  "block_at s = (case s of a # b # c # _ \<Rightarrow> alnum a \<and> alnum b \<and> sep c | _ \<Rightarrow> False)"

fun blocks :: "nat \<Rightarrow> string \<Rightarrow> bool" where
  "blocks 0 s = True"
| "blocks (Suc k) s = (block_at s \<and> blocks k (drop 3 s))"

section \<open>Theorems\<close>

subsection \<open>The steps of the two loops of \<open>scanOUI\<close>\<close>

lemma Split_nonempty: "Split s c \<noteq> []"
  by (induction s) (auto split: list.splits)

lemma scan_skip:
  "line = [] \<or> hd line = CHR ''#'' \<Longrightarrow> scan parse (line # rest) g db = scan parse rest g db"
  by auto

lemma scan_generated:
  assumes "line \<noteq> []" "hd line \<noteq> CHR ''#''"
    and "HasPrefix (TrimSpace (first_field line)) ''Generated: ''"
  shows "scan parse (line # rest) g db =
         scan parse rest (case parse (drop 11 (TrimSpace (first_field line))) of
                            Some t \<Rightarrow> Some t | None \<Rightarrow> g) db"
  using assms Split_nonempty [of line TAB]
  by (cases "Split line TAB") (simp_all add: first_field_def split: option.splits)

lemma scan_no_match:
  assumes "line \<noteq> []" "hd line \<noteq> CHR ''#''"
    and "\<not> HasPrefix (TrimSpace (first_field line)) ''Generated: ''"
    and "first_match (first_field line) = None"
  shows "scan parse (line # rest) g db = scan parse rest g db"
  using assms Split_nonempty [of line TAB]
  by (cases "Split line TAB") (simp_all add: first_field_def)

lemma scan_bad_address:
  assumes "line \<noteq> []" "hd line \<noteq> CHR ''#''"
    and "\<not> HasPrefix (TrimSpace (first_field line)) ''Generated: ''"
    and "first_match (first_field line) = Some s" "ParseMac s = Inl err"
  shows "scan parse (line # rest) g db = (g, db, Some err)"
  using assms Split_nonempty [of line TAB]
  by (cases "Split line TAB") (simp_all add: first_field_def)

lemma scan_record:
  assumes "line \<noteq> []" "hd line \<noteq> CHR ''#''"
    and "\<not> HasPrefix (TrimSpace (first_field line)) ''Generated: ''"
    and "first_match (first_field line) = Some s" "ParseMac s = Inr bt"
  shows "scan parse (line # rest) g db =
         addresses parse bt
           \<lparr>Manufacturer = last (Split line TAB), Address = [], Prefix = bt,
            Country = [], Local = False, Multicast = False\<rparr> rest g db"
  using assms Split_nonempty [of line TAB]
  by (cases "Split line TAB") (simp_all add: first_field_def)

lemma scan_cases:
  obtains (skip) "line = [] \<or> hd line = CHR ''#''"
  | (generated) "line \<noteq> []" "hd line \<noteq> CHR ''#''"
      "HasPrefix (TrimSpace (first_field line)) ''Generated: ''"
  | (no_match) "line \<noteq> []" "hd line \<noteq> CHR ''#''"
      "\<not> HasPrefix (TrimSpace (first_field line)) ''Generated: ''"
      "first_match (first_field line) = None"
  | (bad_address) s err where "line \<noteq> []" "hd line \<noteq> CHR ''#''"
      "\<not> HasPrefix (TrimSpace (first_field line)) ''Generated: ''"
      "first_match (first_field line) = Some s" "ParseMac s = Inl err"
  | (header) s bt where "line \<noteq> []" "hd line \<noteq> CHR ''#''"
      "\<not> HasPrefix (TrimSpace (first_field line)) ''Generated: ''"
      "first_match (first_field line) = Some s" "ParseMac s = Inr bt"
proof (cases "line = [] \<or> hd line = CHR ''#''")
  case True
  then show ?thesis by (rule skip)
next
  case False
  then have a: "line \<noteq> []" "hd line \<noteq> CHR ''#''" by auto
  show ?thesis
  proof (cases "HasPrefix (TrimSpace (first_field line)) ''Generated: ''")
    case True
    then show ?thesis using a by (intro generated)
  next
    case g: False
    show ?thesis
    proof (cases "first_match (first_field line)")
      case None
      then show ?thesis using a g by (intro no_match)
    next
      case (Some s)
      then show ?thesis
        using a g bad_address [of s] header [of s] by (cases "ParseMac s") auto
    qed
  qed
qed

lemma addresses_short:
  "length line < 2 \<Longrightarrow>
   addresses parse bt e (line # rest) g db = scan parse rest g (db(bt \<mapsto> finish bt e))"
  by simp

lemma addresses_other:
  "\<not> length line < 2 \<Longrightarrow> hd line \<noteq> TAB \<Longrightarrow>
   addresses parse bt e (line # rest) g db = addresses parse bt e rest g db"
  by simp

lemma addresses_line:
  "\<not> length line < 2 \<Longrightarrow> hd line = TAB \<Longrightarrow>
   addresses parse bt e (line # rest) g db =
   addresses parse bt (e\<lparr>Address := Address e @ [Trim line [TAB, CHR '' '', CHR 0x0D, CHR 0x0A]]\<rparr>)
     rest g db"
  by simp

subsection \<open>Update\<close>

text \<open>
  C1. When the parse of the new stream fails, \<open>Update\<close> returns and returns that error,
  and the database it was given is as it was: the same map, the same generation time, so
  every lookup answers as before. Whatever the state of the database and whatever the
  stream.
\<close>

theorem Update_failure_keeps_database:
  assumes "scanOUI parse lines Map.empty = (t, dst, Some err)"
  shows "Update parse d lines = Some (d, Some err) \<and>
         (\<forall>d' r. Update parse d lines = Some (d', r) \<longrightarrow>
            r = Some err \<and> ouiDB d' = ouiDB d \<and> dbTime d' = dbTime d \<and>
            (\<forall>hw. LookUp d' hw = LookUp d hw))"
  using assms by (simp add: Update_def)

theorem Update_failure_witness:
  "Update (\<lambda>s. None :: nat option)
     \<lparr>ouiDB = [(0, 0, 1) \<mapsto> \<lparr>Manufacturer = ''X'', Address = [], Prefix = (0, 0, 1),
                Country = [], Local = False, Multicast = False\<rparr>], dbTime = 5, mu = False\<rparr>
     ['''', ''zz-zz-zz'']
   = Some (\<lparr>ouiDB = [(0, 0, 1) \<mapsto> \<lparr>Manufacturer = ''X'', Address = [], Prefix = (0, 0, 1),
                Country = [], Local = False, Multicast = False\<rparr>], dbTime = 5, mu = False\<rparr>,
           Some (ErrInvalidMac (ElementNotHex 1 ''zz'' ExpectedInteger) ''zz-zz-zz''))"
proof -
  have e: "snd (snd (scanOUI (\<lambda>s. None :: nat option) ['''', ''zz-zz-zz''] Map.empty))
           = Some (ErrInvalidMac (ElementNotHex 1 ''zz'' ExpectedInteger) ''zz-zz-zz'')"
    by code_simp
  obtain t dst where "scanOUI (\<lambda>s. None :: nat option) ['''', ''zz-zz-zz''] Map.empty
      = (t, dst, Some (ErrInvalidMac (ElementNotHex 1 ''zz'' ExpectedInteger) ''zz-zz-zz''))"
    using e by (cases "scanOUI (\<lambda>s. None :: nat option) ['''', ''zz-zz-zz''] Map.empty") auto
  from Update_failure_keeps_database [OF this] show ?thesis by blast
qed

subsection \<open>Lookups\<close>

lemma decode_error: "decode mac i ps hw = Inl e \<Longrightarrow> \<exists>r. e = ErrInvalidMac r mac"
  by (induction mac i ps hw rule: decode.induct) (auto split: if_splits sum.splits)

lemma ParseMac_error: "ParseMac mac = Inl e \<Longrightarrow> \<exists>r. e = ErrInvalidMac r mac"
  by (auto simp: ParseMac_def split: if_splits dest: decode_error)

text \<open>
  C5. A key that the map does not hold is answered with \<open>ErrNotFound\<close> and no entry,
  by \<open>LookUp\<close> of both databases (for the updateable one while no writer holds the
  lock) and by \<open>Query\<close> when the text parses. Every error of \<open>ParseMac\<close> is an
  \<open>ErrInvalidMac\<close>, which \<open>Query\<close> returns as it is and which differs from
  \<open>ErrNotFound\<close>.
\<close>

theorem LookUp_absent_is_ErrNotFound:
  "(s_ouiDB sd hw = None \<longrightarrow> staticDB_LookUp sd hw = Inl ErrNotFound) \<and>
   (ouiDB d hw = None \<and> \<not> mu d \<longrightarrow> LookUp d hw = Some (Inl ErrNotFound)) \<and>
   (ParseMac mac = Inr hw \<and> s_ouiDB sd hw = None \<longrightarrow> staticDB_Query sd mac = Inl ErrNotFound) \<and>
   (ParseMac mac = Inr hw \<and> ouiDB d hw = None \<and> \<not> mu d \<longrightarrow> Query d mac = Some (Inl ErrNotFound)) \<and>
   (\<forall>e. ParseMac mac = Inl e \<longrightarrow>
      staticDB_Query sd mac = Inl e \<and> Query d mac = Some (Inl e) \<and> e \<noteq> ErrNotFound)"
  by (auto simp: staticDB_LookUp_def LookUp_def RLock_def staticDB_Query_def Query_def
           dest: ParseMac_error)

theorem LookUp_absent_witness:
  "staticDB_LookUp \<lparr>s_ouiDB = (Map.empty :: string list ouiDB), s_dbTime = 0 :: nat\<rparr> (1, 2, 3)
     = Inl ErrNotFound \<and>
   LookUp \<lparr>ouiDB = (Map.empty :: string list ouiDB), dbTime = 0 :: nat, mu = False\<rparr> (1, 2, 3)
     = Some (Inl ErrNotFound) \<and>
   staticDB_Query \<lparr>s_ouiDB = (Map.empty :: string list ouiDB), s_dbTime = 0 :: nat\<rparr> ''01-02-03''
     = Inl ErrNotFound \<and>
   Query \<lparr>ouiDB = (Map.empty :: string list ouiDB), dbTime = 0 :: nat, mu = False\<rparr> ''01-02-03''
     = Some (Inl ErrNotFound)"
proof -
  have p: "ParseMac ''01-02-03'' = Inr (1, 2, 3)"
    by code_simp
  show ?thesis
    using p LookUp_absent_is_ErrNotFound
      [of "\<lparr>s_ouiDB = (Map.empty :: string list ouiDB), s_dbTime = 0 :: nat\<rparr>" "(1, 2, 3)"
          "\<lparr>ouiDB = (Map.empty :: string list ouiDB), dbTime = 0 :: nat, mu = False\<rparr>"
          "''01-02-03''"]
    by simp
qed

subsection \<open>ParseMac\<close>

text \<open>
  C3. \<open>ParseMac\<close> at \<open>"1g-00-00"\<close> and at \<open>"0 -00-00"\<close>: the first element has two
  characters and is not a pair of hexadecimal digits, and an address is returned, no error.
  \<open>Sscanf\<close> stops at the first character that is no digit and has then stored one operand.
\<close>

theorem ParseMac_accepts_non_hex_element:
  "ParseMac ''1g-00-00'' = Inr (1, 0, 0) \<and> ParseMac ''0 -00-00'' = Inr (0, 0, 0)"
  by code_simp

subsection \<open>The flags\<close>

lemma int_and_pow_iff: "(x AND 2 ^ n \<noteq> 0) = bit x n" for x :: int
  by (simp add: and_exp_eq_0_iff_not_bit)

lemma byte_and_pow_iff: "(x AND 2 ^ n \<noteq> 0) = bit x n" for x :: byte
  by (simp add: and_exp_eq_0_iff_not_bit)

lemma local_bit:
  "((push_bit 16 (uint (b0 :: byte)) OR push_bit 8 (uint (b1 :: byte)) OR uint (b2 :: byte))
      AND local \<noteq> 0) = (b0 AND 2 \<noteq> 0)"
proof -
  let ?i = "push_bit 16 (uint b0) OR push_bit 8 (uint b1) OR uint b2"
  have "(?i AND local \<noteq> 0) = bit ?i 17"
    using int_and_pow_iff [of ?i 17] by (simp add: local_def)
  moreover have "(b0 AND 2 \<noteq> 0) = bit b0 1"
    using byte_and_pow_iff [of b0 1] by simp
  moreover have "bit ?i 17 = bit b0 1"
    by (auto simp: bit_simps dest: bit_imp_le_length)
  ultimately show ?thesis by simp
qed

lemma multicast_bit:
  "((push_bit 16 (uint (b0 :: byte)) OR push_bit 8 (uint (b1 :: byte)) OR uint (b2 :: byte))
      AND multicast \<noteq> 0) = (b0 AND 1 \<noteq> 0)"
proof -
  let ?i = "push_bit 16 (uint b0) OR push_bit 8 (uint b1) OR uint b2"
  have "(?i AND multicast \<noteq> 0) = bit ?i 16"
    using int_and_pow_iff [of ?i 16] by (simp add: multicast_def)
  moreover have "(b0 AND 1 \<noteq> 0) = bit b0 0"
    using byte_and_pow_iff [of b0 0] by simp
  moreover have "bit ?i 16 = bit b0 0"
    by (auto simp: bit_simps dest: bit_imp_le_length)
  ultimately show ?thesis by simp
qed

lemma finish_flagged:
  "Prefix e = bt \<Longrightarrow> \<not> Local e \<Longrightarrow> \<not> Multicast e \<Longrightarrow> flagged bt (finish bt e)"
  by (cases bt) (simp add: finish_def flagged_def Let_def hw_get_def local_bit multicast_bit)

lemma flags_ok_upd: "flags_ok db \<Longrightarrow> flagged k e \<Longrightarrow> flags_ok (db(k \<mapsto> e))"
  by (simp add: flags_ok_def)

lemma scan_flags_ok:
  "(\<forall>g db g' db' err. flags_ok db \<longrightarrow> scan parse lines g db = (g', db', err) \<longrightarrow> flags_ok db') \<and>
   (\<forall>bt e0 g db g' db' err. flags_ok db \<longrightarrow> Prefix e0 = bt \<longrightarrow> \<not> Local e0 \<longrightarrow> \<not> Multicast e0 \<longrightarrow>
      addresses parse bt e0 lines g db = (g', db', err) \<longrightarrow> flags_ok (db' :: string list ouiDB))"
proof (induction lines)
  case Nil
  have "flags_ok (db(bt \<mapsto> finish bt e0))"
    if "flags_ok db" "Prefix e0 = bt" "\<not> Local e0" "\<not> Multicast e0"
    for db :: "string list ouiDB" and bt e0
    using that finish_flagged [of e0 bt] by (intro flags_ok_upd) auto
  then show ?case by simp
next
  case (Cons line rest)
  have S: "flags_ok db'"
    if "flags_ok db" "scan parse (line # rest) g db = (g', db', err)" for g db g' db' err
  proof (cases line rule: scan_cases)
    case skip
    then show ?thesis using that Cons scan_skip [of line parse rest g db] by metis
  next
    case generated
    then show ?thesis using that Cons scan_generated [of line parse rest g db] by metis
  next
    case no_match
    then show ?thesis using that Cons scan_no_match [of line parse rest g db] by metis
  next
    case (bad_address s err)
    then show ?thesis using that scan_bad_address [of line s err parse rest g db] by simp
  next
    case (header s bt)
    let ?e = "\<lparr>Manufacturer = last (Split line TAB), Address = [], Prefix = bt,
            Country = [], Local = False, Multicast = False\<rparr>"
    have "addresses parse bt ?e rest g db = (g', db', err)"
      using that header scan_record [of line s bt parse rest g db] by simp
    moreover have "Prefix ?e = bt" "\<not> Local ?e" "\<not> Multicast ?e" by simp_all
    ultimately show ?thesis using that(1) Cons by blast
  qed
  have A: "flags_ok db'"
    if "flags_ok db" "Prefix e0 = bt" "\<not> Local e0" "\<not> Multicast e0"
       "addresses parse bt e0 (line # rest) g db = (g', db', err)" for bt e0 g db g' db' err
  proof -
    consider "length line < 2" | "\<not> length line < 2" "hd line \<noteq> TAB"
      | "\<not> length line < 2" "hd line = TAB"
      by blast
    then show ?thesis
    proof cases
      case 1
      have "flags_ok (db(bt \<mapsto> finish bt e0))"
        using that finish_flagged [of e0 bt] by (intro flags_ok_upd) auto
      moreover have "scan parse rest g (db(bt \<mapsto> finish bt e0)) = (g', db', err)"
        using that(5) addresses_short [OF 1] by metis
      ultimately show ?thesis using Cons by blast
    next
      case 2
      have "addresses parse bt e0 rest g db = (g', db', err)"
        using that(5) addresses_other [OF 2] by metis
      then show ?thesis using that Cons by blast
    next
      case 3
      let ?e = "e0\<lparr>Address := Address e0 @ [Trim line [TAB, CHR '' '', CHR 0x0D, CHR 0x0A]]\<rparr>"
      have "addresses parse bt ?e rest g db = (g', db', err)"
        using that(5) addresses_line [OF 3] by metis
      moreover have "Prefix ?e = bt" "\<not> Local ?e" "\<not> Multicast ?e" using that by simp_all
      ultimately show ?thesis using that(1) Cons by blast
    qed
  qed
  show ?case using S A by blast
qed

text \<open>
  C8. In every entry that \<open>scanOUI\<close> stores, starting from an empty map, \<open>Local\<close> is
  true exactly when bit \<open>0x02\<close> of the first byte of its key is set and \<open>Multicast\<close>
  exactly when bit \<open>0x01\<close> is set, and the prefix of the entry is its key; the methods
  \<open>Local\<close> and \<open>Multicast\<close> of \<open>HardwareAddr\<close> read the same two bits. The prefixes
  \<open>{0x02,0,0}\<close>, \<open>{0x01,0,0}\<close> and \<open>{0,0,0}\<close> are in the witness.
\<close>

theorem flags_follow_first_byte:
  "(scanOUI parse lines Map.empty = (t, db, err) \<and> db k = Some e \<longrightarrow>
      Prefix e = k \<and> Local e = (fst k AND 2 \<noteq> 0) \<and> Multicast e = (fst k AND 1 \<noteq> 0)) \<and>
   HardwareAddr_Local h = (fst h AND 2 \<noteq> 0) \<and>
   HardwareAddr_Multicast h = (fst h AND 1 \<noteq> 0)"
proof -
  have "flags_ok (Map.empty :: string list ouiDB)"
    by (simp add: flags_ok_def)
  then have "flags_ok db" if "scanOUI parse lines Map.empty = (t, db, err)"
    using that scan_flags_ok [of parse lines] unfolding scanOUI_def by blast
  then have "flagged k e" if "scanOUI parse lines Map.empty = (t, db, err)" "db k = Some e"
    using that unfolding flags_ok_def by blast
  moreover have "HardwareAddr_Local h = (fst h AND 2 \<noteq> 0)"
    by (cases h) (simp add: HardwareAddr_Local_def hw_get_def word_greater_zero_iff)
  moreover have "HardwareAddr_Multicast h = (fst h AND 1 \<noteq> 0)"
    by (cases h) (simp add: HardwareAddr_Multicast_def hw_get_def word_greater_zero_iff)
  ultimately show ?thesis
    unfolding flagged_def by blast
qed

theorem flags_follow_first_byte_witness:
  "\<exists>t db err ea eb ec.
     scanOUI (\<lambda>s. None :: nat option)
       [''02-00-00'' @ [TAB] @ ''A'', [], ''01-00-00'' @ [TAB] @ ''B'', [],
        ''00-00-00'' @ [TAB] @ ''C''] Map.empty = (t, db, err) \<and>
     db (2, 0, 0) = Some ea \<and> Local ea \<and> \<not> Multicast ea \<and>
     db (1, 0, 0) = Some eb \<and> \<not> Local eb \<and> Multicast eb \<and>
     db (0, 0, 0) = Some ec \<and> \<not> Local ec \<and> \<not> Multicast ec \<and>
     HardwareAddr_Local (2, 0, 0) \<and> \<not> HardwareAddr_Multicast (2, 0, 0) \<and>
     \<not> HardwareAddr_Local (1, 0, 0) \<and> HardwareAddr_Multicast (1, 0, 0) \<and>
     \<not> HardwareAddr_Local (0, 0, 0) \<and> \<not> HardwareAddr_Multicast (0, 0, 0)"
proof -
  let ?L = "[''02-00-00'' @ [TAB] @ ''A'', [], ''01-00-00'' @ [TAB] @ ''B'', [],
             ''00-00-00'' @ [TAB] @ ''C'']"
  let ?p = "\<lambda>s :: string. None :: nat option"
  obtain t db err where s: "scanOUI ?p ?L Map.empty = (t, db, err)"
    by (cases "scanOUI ?p ?L Map.empty") auto
  have "(case scanOUI ?p ?L Map.empty of
           (t, db, err) \<Rightarrow> db (2, 0, 0) \<noteq> None \<and> db (1, 0, 0) \<noteq> None \<and> db (0, 0, 0) \<noteq> None)"
    by code_simp
  then obtain ea eb ec where
    e: "db (2, 0, 0) = Some ea" "db (1, 0, 0) = Some eb" "db (0, 0, 0) = Some ec"
    using s by auto
  have "Local ea \<and> \<not> Multicast ea"
    using flags_follow_first_byte [of ?p ?L t db err "(2, 0, 0)" ea] s e by simp
  moreover have "\<not> Local eb \<and> Multicast eb"
    using flags_follow_first_byte [of ?p ?L t db err "(1, 0, 0)" eb] s e by simp
  moreover have "\<not> Local ec \<and> \<not> Multicast ec"
    using flags_follow_first_byte [of ?p ?L t db err "(0, 0, 0)" ec] s e by simp
  moreover have "HardwareAddr_Local (2, 0, 0) \<and> \<not> HardwareAddr_Multicast (2, 0, 0)"
    using flags_follow_first_byte [of ?p ?L t db err "(2, 0, 0)" ea "(2, 0, 0)"] by simp
  moreover have "\<not> HardwareAddr_Local (1, 0, 0) \<and> HardwareAddr_Multicast (1, 0, 0)"
    using flags_follow_first_byte [of ?p ?L t db err "(1, 0, 0)" eb "(1, 0, 0)"] by simp
  moreover have "\<not> HardwareAddr_Local (0, 0, 0) \<and> \<not> HardwareAddr_Multicast (0, 0, 0)"
    using flags_follow_first_byte [of ?p ?L t db err "(0, 0, 0)" ec "(0, 0, 0)"] by simp
  ultimately show ?thesis using s e by blast
qed

subsection \<open>The address lines of a record\<close>

text \<open>
  C2, as the code has it. The inner loop ends only at a line shorter than 2 characters,
  which it consumes, or at the end of the input. A line of 2 characters or more that
  does not start with a tab is consumed and dropped: it adds no address line, it does
  not end the collection, and the outer loop never sees it. So over a block \<open>blk\<close> of
  lines of length 2 or more the entry receives the tab-prefixed lines of \<open>blk\<close>,
  trimmed and in order, and nothing else; the outer loop resumes after the short line.
\<close>

theorem addresses_collects_until_short_line:
  assumes "\<forall>l \<in> set blk. 2 \<le> length l"
  shows "addresses parse bt e blk g db =
           (g, db(bt \<mapsto> finish bt (e\<lparr>Address := Address e @
                 map (\<lambda>l. Trim l [TAB, CHR '' '', CHR 0x0D, CHR 0x0A])
                     (filter (\<lambda>l. hd l = TAB) blk)\<rparr>)), None) \<and>
         (length stop < 2 \<longrightarrow>
          addresses parse bt e (blk @ stop # rest) g db =
            scan parse rest g
              (db(bt \<mapsto> finish bt (e\<lparr>Address := Address e @
                 map (\<lambda>l. Trim l [TAB, CHR '' '', CHR 0x0D, CHR 0x0A])
                     (filter (\<lambda>l. hd l = TAB) blk)\<rparr>))))"
  using assms
proof (induction blk arbitrary: e)
  case Nil
  show ?case by (simp del: fun_upd_apply)
next
  case (Cons l blk)
  have len: "\<not> length l < 2" and rest: "\<forall>l \<in> set blk. 2 \<le> length l"
    using Cons.prems by auto
  show ?case
  proof (cases "hd l = TAB")
    case True
    show ?thesis
      using Cons.IH [OF rest, of "e\<lparr>Address := Address e @ [Trim l [TAB, CHR '' '', CHR 0x0D, CHR 0x0A]]\<rparr>"]
        len True
      by (simp del: fun_upd_apply)
  next
    case False
    show ?thesis
      using Cons.IH [OF rest, of e] len False by (simp del: fun_upd_apply)
  qed
qed

theorem addresses_collects_witness:
  "addresses (\<lambda>s. None :: nat option) (0, 0, 1)
     \<lparr>Manufacturer = ''A'', Address = [], Prefix = (0, 0, 1), Country = [],
      Local = False, Multicast = False\<rparr>
     ([TAB # ''Street'', ''000001 (base 16)'', TAB # ''Land''] @ [] # [''00-00-02'' @ [TAB] @ ''B''])
     None Map.empty =
   scan (\<lambda>s. None :: nat option) [''00-00-02'' @ [TAB] @ ''B''] None
     (Map.empty((0, 0, 1) \<mapsto> finish (0, 0, 1)
        \<lparr>Manufacturer = ''A'', Address = [''Street'', ''Land''], Prefix = (0, 0, 1), Country = [],
         Local = False, Multicast = False\<rparr>))"
proof -
  have h: "\<forall>l \<in> set [TAB # ''Street'', ''000001 (base 16)'', TAB # ''Land'']. 2 \<le> length l"
    by simp
  have t: "map (\<lambda>l. Trim l [TAB, CHR '' '', CHR 0x0D, CHR 0x0A])
             (filter (\<lambda>l. hd l = TAB) [TAB # ''Street'', ''000001 (base 16)'', TAB # ''Land''])
           = [''Street'', ''Land'']"
    by (simp add: Trim_def TAB_def)
  show ?thesis
    using addresses_collects_until_short_line [OF h, of "\<lambda>s. None :: nat option" "(0, 0, 1)"
        "\<lparr>Manufacturer = ''A'', Address = [], Prefix = (0, 0, 1), Country = [],
          Local = False, Multicast = False\<rparr>" None Map.empty "[]" "[''00-00-02'' @ [TAB] @ ''B'']"]
    unfolding t by (simp del: fun_upd_apply)
qed

text \<open>
  The claim as stated fails: a record header that follows address lines with no short
  line between is read by the inner loop and dropped, although the same line starts a
  record when the outer loop reads it.
\<close>

theorem header_after_address_lines_is_dropped:
  "(case scanOUI (\<lambda>s. None :: nat option)
           [''00-00-01'' @ [TAB] @ ''A'', TAB # ''Street'', ''00-00-02'' @ [TAB] @ ''B'']
           Map.empty of
      (t, db, err) \<Rightarrow>
        (map_option Address (db (0, 0, 1)), map_option Manufacturer (db (0, 0, 2)), err))
     = (Some [''Street''], None, None) \<and>
   (case scanOUI (\<lambda>s. None :: nat option) [''00-00-02'' @ [TAB] @ ''B''] Map.empty of
      (t, db, err) \<Rightarrow> (map_option Manufacturer (db (0, 0, 2)), err))
     = (Some ''B'', None)"
  by code_simp

subsection \<open>The generation time\<close>

lemma TrimRightSpace_take: "\<exists>n. TrimRightSpace s = take n s"
proof (induction s rule: TrimRightSpace.induct)
  case (1 s)
  show ?case
  proof (cases "space_width_end s = 0 \<or> s = []")
    case True
    then have "TrimRightSpace s = take (length s) s" by (subst TrimRightSpace.simps) simp
    then show ?thesis by blast
  next
    case False
    then obtain n where "TrimRightSpace (take (length s - space_width_end s) s)
        = take n (take (length s - space_width_end s) s)"
      using 1 by blast
    then have "TrimRightSpace s = take (min n (length s - space_width_end s)) s"
      using False by (subst TrimRightSpace.simps) (simp add: min.commute)
    then show ?thesis by blast
  qed
qed

lemma first_field_Nil: "first_field [] = []"
  by (simp add: first_field_def)

lemma first_field_Cons: "c \<noteq> TAB \<Longrightarrow> first_field (c # cs) = c # first_field cs"
  using Split_nonempty [of cs TAB]
  by (cases "Split cs TAB") (simp_all add: first_field_def)

lemma TrimLeftSpace_hash: "TrimLeftSpace (CHR ''#'' # y) = CHR ''#'' # y"
proof -
  have "space_width (CHR ''#'' # y) = 0"
    by (cases "(CHR ''#'' # y)" rule: space_width.cases)
       (auto simp: ascii_space_def space2_def space3_def ord_def)
  then show ?thesis by (subst TrimLeftSpace.simps) simp
qed

lemma not_generated_hash: "\<not> HasPrefix (TrimSpace (CHR ''#'' # y)) ''Generated: ''"
proof -
  obtain n where "TrimSpace (CHR ''#'' # y) = take n (CHR ''#'' # y)"
    using TrimRightSpace_take [of "CHR ''#'' # y"] by (auto simp: TrimSpace_def TrimLeftSpace_hash)
  then show ?thesis
    by (cases n) (auto simp: HasPrefix_def)
qed

lemma generated_line_shape:
  assumes "HasPrefix (TrimSpace (first_field line)) ''Generated: ''"
  shows "line \<noteq> [] \<and> hd line \<noteq> CHR ''#''"
proof (cases line)
  case Nil
  then show ?thesis
    using assms
    by (simp add: first_field_Nil TrimSpace_def HasPrefix_def TrimLeftSpace.simps [of "[]"]
          TrimRightSpace.simps [of "[]"])
next
  case (Cons c cs)
  have "c \<noteq> CHR ''#''"
  proof
    assume "c = CHR ''#''"
    then have "first_field line = CHR ''#'' # first_field cs"
      using Cons first_field_Cons [of c cs] by (simp add: TAB_def)
    then show False using assms not_generated_hash by simp
  qed
  then show ?thesis using Cons by simp
qed

lemma gen_step_other: "\<not> generated_line l \<Longrightarrow> gen_step parse g l = g"
  by (simp add: gen_step_def)

lemma scan_generated_fold:
  "(\<forall>g db. fst (scan parse lines g db) = foldl (gen_step parse) g (outer_lines lines)) \<and>
   (\<forall>bt e g. \<forall>db :: string list ouiDB.
      fst (addresses parse bt e lines g db) = foldl (gen_step parse) g (inner_lines lines))"
proof (induction lines)
  case Nil
  show ?case by simp
next
  case (Cons line rest)
  have IHs: "fst (scan parse rest g db) = foldl (gen_step parse) g (outer_lines rest)" for g db
    using Cons by blast
  have IHa: "fst (addresses parse bt e rest g db) = foldl (gen_step parse) g (inner_lines rest)"
    for bt e g and db :: "string list ouiDB"
    using Cons by blast
  have S: "fst (scan parse (line # rest) g db) = foldl (gen_step parse) g (outer_lines (line # rest))"
    for g db
  proof (cases line rule: scan_cases)
    case skip
    then have n: "\<not> generated_line line"
      using generated_line_shape [of line] by (auto simp: generated_line_def)
    have "\<not> ends_scan line" "\<not> opens_record line"
      using skip by (auto simp: ends_scan_def opens_record_def)
    then have o: "outer_lines (line # rest) = line # outer_lines rest" by simp
    have eq: "scan parse (line # rest) g db = scan parse rest g db"
      by (rule scan_skip [OF skip])
    show ?thesis
      unfolding eq o by (simp only: foldl_Cons gen_step_other [OF n] IHs)
  next
    case generated
    then have n: "generated_line line" by (simp add: generated_line_def)
    have "\<not> ends_scan line" "\<not> opens_record line"
      using n by (auto simp: ends_scan_def opens_record_def)
    then have o: "outer_lines (line # rest) = line # outer_lines rest" by simp
    have gs: "(case parse (drop 11 (TrimSpace (first_field line))) of Some t \<Rightarrow> Some t | None \<Rightarrow> g)
              = gen_step parse g line"
      using n by (simp add: gen_step_def time_text_def)
    have eq: "scan parse (line # rest) g db = scan parse rest (gen_step parse g line) db"
      using scan_generated [OF generated, of parse rest g db] unfolding gs .
    show ?thesis
      unfolding eq o by (simp only: foldl_Cons IHs)
  next
    case no_match
    then have n: "\<not> generated_line line" by (simp add: generated_line_def)
    have "\<not> ends_scan line" "\<not> opens_record line"
      using no_match by (auto simp: ends_scan_def opens_record_def)
    then have o: "outer_lines (line # rest) = line # outer_lines rest" by simp
    have eq: "scan parse (line # rest) g db = scan parse rest g db"
      by (rule scan_no_match [OF no_match])
    show ?thesis
      unfolding eq o by (simp only: foldl_Cons gen_step_other [OF n] IHs)
  next
    case (bad_address s err)
    then have n: "\<not> generated_line line" by (simp add: generated_line_def)
    have "ends_scan line"
      using bad_address n by (simp add: ends_scan_def)
    then have o: "outer_lines (line # rest) = [line]" by simp
    have eq: "scan parse (line # rest) g db = (g, db, Some err)"
      by (rule scan_bad_address [OF bad_address])
    show ?thesis
      unfolding eq o by (simp only: foldl_Cons foldl_Nil gen_step_other [OF n] fst_conv)
  next
    case (header s bt)
    then have n: "\<not> generated_line line" by (simp add: generated_line_def)
    have "\<not> ends_scan line" "opens_record line"
      using header n by (simp_all add: ends_scan_def opens_record_def)
    then have o: "outer_lines (line # rest) = line # inner_lines rest" by simp
    have eq: "scan parse (line # rest) g db =
         addresses parse bt
           \<lparr>Manufacturer = last (Split line TAB), Address = [], Prefix = bt,
            Country = [], Local = False, Multicast = False\<rparr> rest g db"
      by (rule scan_record [OF header])
    show ?thesis
      unfolding eq o by (simp only: foldl_Cons gen_step_other [OF n] IHa)
  qed
  have A: "fst (addresses parse bt e (line # rest) g db)
           = foldl (gen_step parse) g (inner_lines (line # rest))"
    for bt e g and db :: "string list ouiDB"
  proof -
    consider "length line < 2" | "\<not> length line < 2" "hd line \<noteq> TAB"
      | "\<not> length line < 2" "hd line = TAB"
      by blast
    then show ?thesis
    proof cases
      case 1
      have o: "inner_lines (line # rest) = outer_lines rest" using 1 by simp
      show ?thesis
        unfolding o addresses_short [OF 1] by (rule IHs)
    next
      case 2
      have o: "inner_lines (line # rest) = inner_lines rest" using 2 by simp
      show ?thesis
        unfolding o addresses_other [OF 2] by (rule IHa)
    next
      case 3
      have o: "inner_lines (line # rest) = inner_lines rest" using 3 by simp
      show ?thesis
        unfolding o addresses_line [OF 3] by (rule IHa)
    qed
  qed
  show ?case using S A by blast
qed

lemma foldl_gen_step_none:
  "\<forall>l \<in> set ls. generated_line l \<longrightarrow> parse (time_text l) = None \<Longrightarrow>
   foldl (gen_step parse) g ls = g"
  by (induction ls arbitrary: g) (auto simp: gen_step_def)

lemma foldl_gen_step_last:
  assumes "generated_line l" "parse (time_text l) = Some t"
    and "\<forall>l' \<in> set post. generated_line l' \<longrightarrow> parse (time_text l') = None"
  shows "foldl (gen_step parse) g (pre @ l # post) = Some t"
proof -
  have "gen_step parse (foldl (gen_step parse) g pre) l = Some t"
    using assms(1,2) by (simp add: gen_step_def)
  then show ?thesis
    using foldl_gen_step_none [OF assms(3), of "Some t"] by simp
qed

lemma inner_lines_block:
  "\<forall>l \<in> set blk. 2 \<le> length l \<Longrightarrow> length stop < 2 \<Longrightarrow>
   inner_lines (blk @ stop # rest) = outer_lines rest"
  by (induction blk) auto

text \<open>
  C7, as the code has it. When the outer loop reads a line whose trimmed first field
  begins with \<open>Generated: \<close>, the generation time becomes the parsed time if
  \<open>time.Parse\<close> accepts the rest of the field and keeps its value if not; the map is
  untouched and the scan goes on. For every stream the time that \<open>scanOUI\<close> returns is
  the result of these steps over the lines the outer loop reads, from no time at all:
  the last of those lines that parses gives the time, and there is none when none
  parses. The lines of a record's block, up to the line shorter than 2 characters that
  ends it, are read by the inner loop and leave the time as it was, whatever they hold.
\<close>

theorem generation_time_is_last_outer_line:
  "(generated_line line \<longrightarrow>
      scan parse (line # rest) g db =
      scan parse rest (case parse (time_text line) of Some t \<Rightarrow> Some t | None \<Rightarrow> g) db) \<and>
   fst (scanOUI parse lines db) = foldl (gen_step parse) None (outer_lines lines) \<and>
   (outer_lines lines = pre @ l # post \<and> generated_line l \<and> parse (time_text l) = Some t \<and>
    (\<forall>l' \<in> set post. generated_line l' \<longrightarrow> parse (time_text l') = None) \<longrightarrow>
      fst (scanOUI parse lines db) = Some t) \<and>
   ((\<forall>l' \<in> set (outer_lines lines). generated_line l' \<longrightarrow> parse (time_text l') = None) \<longrightarrow>
      fst (scanOUI parse lines db) = None) \<and>
   (opens_record line \<and> (\<forall>l' \<in> set blk. 2 \<le> length l') \<and> length stop < 2 \<longrightarrow>
      fst (scan parse (line # blk @ stop # rest) g db) = fst (scan parse rest g db))"
proof (intro conjI impI)
  assume a: "generated_line line"
  then have "line \<noteq> []" "hd line \<noteq> CHR ''#''"
    using generated_line_shape [of line] by (simp_all add: generated_line_def)
  then show "scan parse (line # rest) g db =
      scan parse rest (case parse (time_text line) of Some t \<Rightarrow> Some t | None \<Rightarrow> g) db"
    using a scan_generated [of line parse rest g db]
    by (simp add: generated_line_def time_text_def)
next
  show f: "fst (scanOUI parse lines db) = foldl (gen_step parse) None (outer_lines lines)"
    using scan_generated_fold [of parse lines] by (simp add: scanOUI_def)
  {
    assume "outer_lines lines = pre @ l # post \<and> generated_line l \<and> parse (time_text l) = Some t \<and>
      (\<forall>l' \<in> set post. generated_line l' \<longrightarrow> parse (time_text l') = None)"
    then show "fst (scanOUI parse lines db) = Some t"
      unfolding f using foldl_gen_step_last [of l parse t post None pre] by simp
  }
  {
    assume "\<forall>l' \<in> set (outer_lines lines). generated_line l' \<longrightarrow> parse (time_text l') = None"
    then show "fst (scanOUI parse lines db) = None"
      unfolding f by (rule foldl_gen_step_none)
  }
next
  assume a: "opens_record line \<and> (\<forall>l' \<in> set blk. 2 \<le> length l') \<and> length stop < 2"
  then have n: "\<not> generated_line line" "\<not> ends_scan line"
    by (auto simp: opens_record_def ends_scan_def split: option.splits sum.splits)
  have "outer_lines (line # blk @ stop # rest) = line # outer_lines rest"
    using a n inner_lines_block [of blk stop rest] by simp
  then have "fst (scan parse (line # blk @ stop # rest) g db)
      = foldl (gen_step parse) (gen_step parse g line) (outer_lines rest)"
    using scan_generated_fold [of parse "line # blk @ stop # rest"] by simp
  also have "\<dots> = fst (scan parse rest g db)"
    using scan_generated_fold [of parse rest] gen_step_other [OF n(1), of parse g] by simp
  finally show "fst (scan parse (line # blk @ stop # rest) g db) = fst (scan parse rest g db)" .
qed

theorem generation_time_witness:
  "fst (scanOUI
     (\<lambda>s. if s = ''Mon, 2 Jan 2006 15:04:05 -0700'' then Some (1 :: nat)
           else if s = ''Tue, 3 Jan 2006 15:04:05 -0700'' then Some 2
           else if s = ''Wed, 4 Jan 2006 15:04:05 -0700'' then Some 3 else None)
     [''Generated: Mon, 2 Jan 2006 15:04:05 -0700'', ''00-00-01'' @ [TAB] @ ''A'',
      ''Generated: Wed, 4 Jan 2006 15:04:05 -0700'', [],
      ''Generated: Tue, 3 Jan 2006 15:04:05 -0700'', ''Generated: soon'']
     Map.empty) = Some 2"
proof -
  let ?p = "\<lambda>s. if s = ''Mon, 2 Jan 2006 15:04:05 -0700'' then Some (1 :: nat)
           else if s = ''Tue, 3 Jan 2006 15:04:05 -0700'' then Some 2
           else if s = ''Wed, 4 Jan 2006 15:04:05 -0700'' then Some 3 else None"
  let ?mon = "''Generated: Mon, 2 Jan 2006 15:04:05 -0700''"
  let ?tue = "''Generated: Tue, 3 Jan 2006 15:04:05 -0700''"
  let ?wed = "''Generated: Wed, 4 Jan 2006 15:04:05 -0700''"
  let ?hdr = "''00-00-01'' @ [TAB] @ ''A''"
  let ?L = "[?mon, ?hdr, ?wed, [], ?tue, ''Generated: soon'']"
  have o: "outer_lines ?L = [?mon, ?hdr] @ ?tue # [''Generated: soon'']"
    by code_simp
  have g: "generated_line ?tue"
    by code_simp
  have t: "?p (time_text ?tue) = Some 2"
    by code_simp
  have n: "\<forall>l' \<in> set [''Generated: soon'']. generated_line l' \<longrightarrow> ?p (time_text l') = None"
    by code_simp
  show ?thesis
    using generation_time_is_last_outer_line [where parse = ?p and lines = ?L and db = Map.empty
        and pre = "[?mon, ?hdr]" and l = ?tue and post = "[''Generated: soon'']" and t = 2,
        THEN conjunct2, THEN conjunct2, THEN conjunct1, THEN mp, OF conjI [OF o conjI [OF g conjI [OF t n]]]]
    .
qed

text \<open>
  The claim as stated fails: a Generated line that follows a record header with no short
  line between is read by the inner loop, so the time of an earlier line is returned
  although the later line parses.
\<close>

theorem last_generated_line_does_not_win:
  "fst (scanOUI
     (\<lambda>s. if s = ''Mon, 2 Jan 2006 15:04:05 -0700'' then Some (1 :: nat)
           else if s = ''Tue, 3 Jan 2006 15:04:05 -0700'' then Some 2 else None)
     [''Generated: Mon, 2 Jan 2006 15:04:05 -0700'', ''00-00-01'' @ [TAB] @ ''A'',
      ''Generated: Tue, 3 Jan 2006 15:04:05 -0700'']
     Map.empty) = Some 1 \<and>
   generated_line ''Generated: Tue, 3 Jan 2006 15:04:05 -0700'' \<and>
   time_text ''Generated: Tue, 3 Jan 2006 15:04:05 -0700'' = ''Tue, 3 Jan 2006 15:04:05 -0700''"
  by code_simp

subsection \<open>Open and OpenStatic on a parse that fails\<close>

lemma closed_block_tail: "closed_block (line # rest) \<Longrightarrow> rest \<noteq> [] \<or> line = []"
  by (auto simp: closed_block_def split: if_splits)






subsection \<open>The separators of \<open>ParseMac\<close>\<close>

lemma is_hex_ord:
  "is_hex c \<Longrightarrow> (48 \<le> ord c \<and> ord c \<le> 57) \<or> (65 \<le> ord c \<and> ord c \<le> 70) \<or> (97 \<le> ord c \<and> ord c \<le> 102)"
  by (auto simp: is_hex_def hexval_def split: if_splits)

lemma is_hex_not_sep: "is_hex c \<Longrightarrow> c \<noteq> CHR ''-'' \<and> c \<noteq> CHR '':''"
  by (auto dest!: is_hex_ord simp: ord_def)

lemma digit_less: "digit c < 16"
  by (auto simp: digit_def hexval_def)

lemma is_hex_no_space:
  assumes "is_hex a"
  shows "space_width (a # s) = 0"
proof -
  have o: "48 \<le> ord a" "ord a \<le> 102"
    using is_hex_ord [OF assms] by auto
  have 1: "\<not> ascii_space a"
    using o by (simp add: ascii_space_def)
  have 2: "\<not> space2 (ord a) x" for x
    using o by (simp add: space2_def)
  have 3: "\<not> space3 (ord a) x y" for x y
    using o by (simp add: space3_def)
  show ?thesis
    by (cases "a # s" rule: space_width.cases) (simp_all add: 1 2 3)
qed

lemma Sscanf_hex_pair:
  assumes "is_hex a" "is_hex b"
  shows "Sscanf_x [a, b] = Inr (hex_pair a b)"
proof -
  have "SkipSpace [a, b] = Inr [a, b]"
    using is_hex_no_space [OF assms(1), of "[b]"] by (subst SkipSpace.simps) simp
  moreover have "hex_number [a, b] = 16 * digit a + digit b"
    by (simp add: hex_number_def digit_def)
  moreover have "16 * digit a + digit b < 256"
    using digit_less [of a] digit_less [of b] by arith
  ultimately show ?thesis
    using assms by (simp add: Sscanf_x_def hex_pair_def)
qed

lemma Split_pair:
  "a \<noteq> s \<Longrightarrow> b \<noteq> s \<Longrightarrow> Split (a # b # s # r) s = [a, b] # Split r s"
  by simp

lemma Split_last_pair:
  "a \<noteq> s \<Longrightarrow> b \<noteq> s \<Longrightarrow> Split [a, b] s = [[a, b]]"
  by simp

lemma decode_three:
  assumes "is_hex a" "is_hex b" "is_hex c" "is_hex d" "is_hex e" "is_hex f"
  shows "decode mac 0 ([a, b] # [c, d] # [e, f] # ps) (0, 0, 0) =
         Inr (hex_pair a b, hex_pair c d, hex_pair e f)"
  using assms by (cases ps) (simp_all add: Sscanf_hex_pair hw_set_def)

lemma ParseMac_separated:
  assumes "is_hex a" "is_hex b" "is_hex c" "is_hex d" "is_hex e" "is_hex f"
    and "s = CHR ''-'' \<or> s = CHR '':''"
  shows "ParseMac [a, b, s, c, d, s, e, f] = Inr (hex_pair a b, hex_pair c d, hex_pair e f)"
    and "ParseMac ([a, b, s, c, d, s, e, f, s] @ r) = Inr (hex_pair a b, hex_pair c d, hex_pair e f)"
proof -
  have ne: "a \<noteq> s" "b \<noteq> s" "c \<noteq> s" "d \<noteq> s" "e \<noteq> s" "f \<noteq> s"
    using assms is_hex_not_sep by blast+
  have 1: "elements [a, b, s, c, d, s, e, f] = [[a, b], [c, d], [e, f]]"
    using assms(7) ne by (auto simp: elements_def)
  have 2: "elements ([a, b, s, c, d, s, e, f, s] @ r) = [a, b] # [c, d] # [e, f] # Split r s"
    using assms(7) ne by (auto simp: elements_def)
  show "ParseMac [a, b, s, c, d, s, e, f] = Inr (hex_pair a b, hex_pair c d, hex_pair e f)"
    unfolding ParseMac_def 1 using decode_three [OF assms(1-6), of _ "[]"] by simp
  show "ParseMac ([a, b, s, c, d, s, e, f, s] @ r) = Inr (hex_pair a b, hex_pair c d, hex_pair e f)"
    unfolding ParseMac_def 2 using decode_three [OF assms(1-6)] by simp
qed

lemma ParseMac_unseparated:
  assumes "is_hex a" "is_hex b" "is_hex c" "is_hex d" "is_hex e" "is_hex f"
  shows "ParseMac ([a, b, c, d, e, f] @ r) = Inr (hex_pair a b, hex_pair c d, hex_pair e f)"
proof -
  have "elements ([a, b, c, d, e, f] @ r) = [a, b] # [c, d] # [e, f] # pairs r"
    using is_hex_not_sep [OF assms(3)] by (simp add: elements_def)
  then show ?thesis
    unfolding ParseMac_def using decode_three [OF assms] by simp
qed

text \<open>
  C4. For three groups of two hexadecimal digits, \<open>ParseMac\<close> returns the same three
  bytes whether the groups are separated by \<open>-\<close>, by \<open>:\<close> or not at all: each byte is
  the value of its two digits, high digit first, and the bytes stand in the order of the
  groups. What follows the third group (after the separator, or after the sixth digit
  when there is none) is ignored. An input of fewer than 6 characters is rejected as too
  short, and a longer one with fewer than 3 elements for the lack of elements.
\<close>

theorem ParseMac_separator_styles:
  assumes "is_hex a" "is_hex b" "is_hex c" "is_hex d" "is_hex e" "is_hex f"
  shows "ParseMac [a, b, CHR ''-'', c, d, CHR ''-'', e, f]
           = Inr (hex_pair a b, hex_pair c d, hex_pair e f) \<and>
         ParseMac [a, b, CHR '':'', c, d, CHR '':'', e, f]
           = Inr (hex_pair a b, hex_pair c d, hex_pair e f) \<and>
         ParseMac [a, b, c, d, e, f]
           = Inr (hex_pair a b, hex_pair c d, hex_pair e f) \<and>
         (\<forall>r. ParseMac ([a, b, CHR ''-'', c, d, CHR ''-'', e, f, CHR ''-''] @ r)
           = Inr (hex_pair a b, hex_pair c d, hex_pair e f)) \<and>
         (\<forall>r. ParseMac ([a, b, CHR '':'', c, d, CHR '':'', e, f, CHR '':''] @ r)
           = Inr (hex_pair a b, hex_pair c d, hex_pair e f)) \<and>
         (\<forall>r. ParseMac ([a, b, c, d, e, f] @ r)
           = Inr (hex_pair a b, hex_pair c d, hex_pair e f)) \<and>
         (\<forall>mac. length mac < 6 \<longrightarrow> ParseMac mac = Inl (ErrInvalidMac MacTooShort mac)) \<and>
         (\<forall>mac. 6 \<le> length mac \<and> length (elements mac) < 3 \<longrightarrow>
            ParseMac mac = Inl (ErrInvalidMac TooFewElements mac))"
proof -
  have "ParseMac [a, b, c, d, e, f] = Inr (hex_pair a b, hex_pair c d, hex_pair e f)"
    using ParseMac_unseparated [OF assms, of "[]"] by simp
  moreover have "\<forall>mac. length mac < 6 \<longrightarrow> ParseMac mac = Inl (ErrInvalidMac MacTooShort mac)"
    by (simp add: ParseMac_def)
  moreover have "\<forall>mac. 6 \<le> length mac \<and> length (elements mac) < 3 \<longrightarrow>
            ParseMac mac = Inl (ErrInvalidMac TooFewElements mac)"
    by (simp add: ParseMac_def)
  ultimately show ?thesis
    using ParseMac_separated [OF assms, of "CHR ''-''"] ParseMac_separated [OF assms, of "CHR '':''"]
      ParseMac_unseparated [OF assms]
    by blast
qed

theorem ParseMac_separator_styles_witness:
  "ParseMac ''D0-DF-9A'' = Inr (0xD0, 0xDF, 0x9A) \<and>
   ParseMac ''D0:DF:9A'' = Inr (0xD0, 0xDF, 0x9A) \<and>
   ParseMac ''D0DF9A'' = Inr (0xD0, 0xDF, 0x9A) \<and>
   ParseMac ''D0-DF-9A-D8-44-4B'' = Inr (0xD0, 0xDF, 0x9A) \<and>
   ParseMac ''D0DF9AD8444B'' = Inr (0xD0, 0xDF, 0x9A) \<and>
   ParseMac ''D0-DF'' = Inl (ErrInvalidMac MacTooShort ''D0-DF'') \<and>
   ParseMac ''ab-cdefg'' = Inl (ErrInvalidMac TooFewElements ''ab-cdefg'')"
proof -
  have h: "is_hex (CHR ''D'')" "is_hex (CHR ''0'')" "is_hex (CHR ''F'')" "is_hex (CHR ''9'')"
    "is_hex (CHR ''A'')"
    by code_simp+
  have v: "hex_pair (CHR ''D'') (CHR ''0'') = 0xD0" "hex_pair (CHR ''D'') (CHR ''F'') = 0xDF"
    "hex_pair (CHR ''9'') (CHR ''A'') = 0x9A"
    by code_simp+
  have n: "length (elements ''ab-cdefg'') < 3"
    by code_simp
  note t = ParseMac_separator_styles [OF h(1) h(2) h(1) h(3) h(4) h(5)]
  have "ParseMac (''D0-DF-9A-'' @ ''D8-44-4B'') = Inr (0xD0, 0xDF, 0x9A)"
    using t v by (simp del: append.simps)
  moreover have "ParseMac (''D0DF9A'' @ ''D8444B'') = Inr (0xD0, 0xDF, 0x9A)"
    using t v by (simp del: append.simps)
  moreover have "ParseMac ''D0-DF'' = Inl (ErrInvalidMac MacTooShort ''D0-DF'')"
    using t by simp
  moreover have "ParseMac ''ab-cdefg'' = Inl (ErrInvalidMac TooFewElements ''ab-cdefg'')"
    using t n by simp
  ultimately show ?thesis
    using t v by simp
qed

subsection \<open>The pattern and the tokens\<close>

lemma matches_group:
  "matches re_group s = (if pair_at s then [drop 2 s] else [])"
proof -
  have "matches re_group s = repeat (matches (Cls alnum)) (Suc (Suc 0)) (Suc (Suc 0)) s"
    by (simp add: re_group_def numeral_2_eq_2)
  also have "\<dots> = (if pair_at s then [drop 2 s] else [])"
    by (cases s; cases "tl s") (auto simp: pair_at_def)
  finally show ?thesis .
qed

lemma matches_block:
  "matches re_block s = (if block_at s then [drop 3 s] else [])"
proof -
  have "matches re_block s
        = concat (map (matches (Cls sep)) (if pair_at s then [drop 2 s] else []))"
    by (simp add: re_block_def matches_group)
  also have "\<dots> = (if block_at s then [drop 3 s] else [])"
    by (cases s; cases "tl s"; cases "tl (tl s)") (auto simp: pair_at_def block_at_def)
  finally show ?thesis .
qed

lemma block_at_length: "block_at s \<Longrightarrow> 3 \<le> length s"
  by (auto simp: block_at_def split: list.splits)

lemma pair_at_length: "pair_at s \<Longrightarrow> 2 \<le> length s"
  by (auto simp: pair_at_def split: list.splits)

lemma repeat_blocks_mem:
  "r \<in> set (repeat (matches re_block) lo hi s) \<longleftrightarrow>
   (\<exists>k. lo \<le> k \<and> k \<le> hi \<and> blocks k s \<and> r = drop (3 * k) s)"
proof (induction hi arbitrary: lo s)
  case 0
  show ?case by auto
next
  case (Suc hi)
  have "r \<in> set (repeat (matches re_block) lo (Suc hi) s) \<longleftrightarrow>
        (block_at s \<and> r \<in> set (repeat (matches re_block) (lo - 1) hi (drop 3 s)))
        \<or> (lo = 0 \<and> r = s)"
    by (auto simp: matches_block)
  also have "\<dots> \<longleftrightarrow>
        (block_at s \<and> (\<exists>k. lo - 1 \<le> k \<and> k \<le> hi \<and> blocks k (drop 3 s) \<and> r = drop (3 * k) (drop 3 s)))
        \<or> (lo = 0 \<and> r = s)"
    using Suc.IH [of "lo - 1" "drop 3 s"] by simp
  also have "\<dots> \<longleftrightarrow> (\<exists>k. lo \<le> k \<and> k \<le> Suc hi \<and> blocks k s \<and> r = drop (3 * k) s)"
  proof
    assume "(block_at s \<and> (\<exists>k. lo - 1 \<le> k \<and> k \<le> hi \<and> blocks k (drop 3 s) \<and> r = drop (3 * k) (drop 3 s)))
        \<or> (lo = 0 \<and> r = s)"
    then show "\<exists>k. lo \<le> k \<and> k \<le> Suc hi \<and> blocks k s \<and> r = drop (3 * k) s"
    proof
      assume a: "block_at s \<and> (\<exists>k. lo - 1 \<le> k \<and> k \<le> hi \<and> blocks k (drop 3 s) \<and> r = drop (3 * k) (drop 3 s))"
      then obtain k where k: "lo - 1 \<le> k" "k \<le> hi" "blocks k (drop 3 s)" "r = drop (3 * k) (drop 3 s)"
        by blast
      have "lo \<le> Suc k \<and> Suc k \<le> Suc hi \<and> blocks (Suc k) s \<and> r = drop (3 * Suc k) s"
        using a k by (simp add: add.commute)
      then show ?thesis by blast
    next
      assume "lo = 0 \<and> r = s"
      then have "lo \<le> 0 \<and> 0 \<le> Suc hi \<and> blocks 0 s \<and> r = drop (3 * 0) s" by simp
      then show ?thesis by blast
    qed
  next
    assume "\<exists>k. lo \<le> k \<and> k \<le> Suc hi \<and> blocks k s \<and> r = drop (3 * k) s"
    then obtain k where k: "lo \<le> k" "k \<le> Suc hi" "blocks k s" "r = drop (3 * k) s"
      by blast
    show "(block_at s \<and> (\<exists>k. lo - 1 \<le> k \<and> k \<le> hi \<and> blocks k (drop 3 s) \<and> r = drop (3 * k) (drop 3 s)))
        \<or> (lo = 0 \<and> r = s)"
    proof (cases k)
      case 0
      then show ?thesis using k by simp
    next
      case (Suc j)
      then have "block_at s \<and> lo - 1 \<le> j \<and> j \<le> hi \<and> blocks j (drop 3 s) \<and> r = drop (3 * j) (drop 3 s)"
        using k by (simp add: add.commute)
      then show ?thesis by blast
    qed
  qed
  finally show ?case .
qed

lemma drop_block: "drop (3 * Suc k + n) (x # y # z # s) = drop (3 * k + n) s"
proof -
  have "3 * Suc k + n = Suc (Suc (Suc (3 * k + n)))" by simp
  then show ?thesis by (simp only: drop_Suc_Cons)
qed

lemma groups_prefix:
  "(\<exists>t. s = t @ r \<and> groups (Suc k) t) \<longleftrightarrow>
   blocks k s \<and> pair_at (drop (3 * k) s) \<and> r = drop (3 * k + 2) s"
proof (induction k arbitrary: s)
  case 0
  show ?case
  proof
    assume "\<exists>t. s = t @ r \<and> groups (Suc 0) t"
    then obtain t where t: "s = t @ r" "groups (Suc 0) t" by blast
    then obtain a b where "t = [a, b]" "alnum a" "alnum b"
      by (auto split: list.splits)
    then show "blocks 0 s \<and> pair_at (drop (3 * 0) s) \<and> r = drop (3 * 0 + 2) s"
      using t by (simp add: pair_at_def)
  next
    assume a: "blocks 0 s \<and> pair_at (drop (3 * 0) s) \<and> r = drop (3 * 0 + 2) s"
    then obtain x y where "s = x # y # r" "alnum x" "alnum y"
      by (auto simp: pair_at_def split: list.splits)
    then have "s = [x, y] @ r \<and> groups (Suc 0) [x, y]" by simp
    then show "\<exists>t. s = t @ r \<and> groups (Suc 0) t" by blast
  qed
next
  case (Suc k)
  show ?case
  proof
    assume "\<exists>t. s = t @ r \<and> groups (Suc (Suc k)) t"
    then obtain t where t: "s = t @ r" "groups (Suc (Suc k)) t" by blast
    then obtain a b c t' where t': "t = a # b # c # t'" "alnum a" "alnum b" "sep c" "groups (Suc k) t'"
      by (auto split: list.splits)
    have "drop 3 s = t' @ r" using t t' by simp
    then have "blocks k (drop 3 s) \<and> pair_at (drop (3 * k) (drop 3 s)) \<and> r = drop (3 * k + 2) (drop 3 s)"
      using Suc.IH [of "drop 3 s"] t' by blast
    moreover have "block_at s" using t t' by (simp add: block_at_def)
    ultimately show "blocks (Suc k) s \<and> pair_at (drop (3 * Suc k) s) \<and> r = drop (3 * Suc k + 2) s"
      using t t' drop_block [of k 0 a b c "t' @ r"] drop_block [of k 2 a b c "t' @ r"] by simp
  next
    assume a: "blocks (Suc k) s \<and> pair_at (drop (3 * Suc k) s) \<and> r = drop (3 * Suc k + 2) s"
    then have b: "block_at s" by simp
    then obtain x y z s' where s: "s = x # y # z # s'" "alnum x" "alnum y" "sep z"
      by (auto simp: block_at_def split: list.splits)
    have "blocks k s' \<and> pair_at (drop (3 * k) s') \<and> r = drop (3 * k + 2) s'"
      using a s drop_block [of k 0 x y z s'] drop_block [of k 2 x y z s'] by simp
    then obtain t' where "s' = t' @ r" "groups (Suc k) t'"
      using Suc.IH [of s'] by blast
    then have "s = (x # y # z # t') @ r \<and> groups (Suc (Suc k)) (x # y # z # t')"
      using s by simp
    then show "\<exists>t. s = t @ r \<and> groups (Suc (Suc k)) t" by blast
  qed
qed

lemma concat_map_if: "concat (map (\<lambda>r. if P r then [g r] else []) xs) = map g (filter P xs)"
  by (induction xs) auto

lemma matches_address:
  "matches re_address s =
   map (drop 2) (filter pair_at (repeat (matches re_block) 2 5 s))"
proof -
  have "matches re_address s =
        concat (map (matches re_group) (repeat (matches re_block) 2 5 s))"
    by (simp add: re_address_def)
  also have "\<dots> = concat (map (\<lambda>r. if pair_at r then [drop 2 r] else [])
                  (repeat (matches re_block) 2 5 s))"
    using matches_group by presburger
  finally show ?thesis by (simp only: concat_map_if)
qed

lemma matches_address_mem:
  "r \<in> set (matches re_address s) \<longleftrightarrow> (\<exists>t. s = t @ r \<and> is_token t)"
proof -
  have "r \<in> set (matches re_address s) \<longleftrightarrow>
        (\<exists>k. 2 \<le> k \<and> k \<le> 5 \<and> blocks k s \<and> pair_at (drop (3 * k) s) \<and> r = drop (3 * k + 2) s)"
  proof
    assume "r \<in> set (matches re_address s)"
    then obtain x where x: "x \<in> set (repeat (matches re_block) 2 5 s)" "pair_at x" "r = drop 2 x"
      unfolding matches_address by auto
    then obtain k where "2 \<le> k" "k \<le> 5" "blocks k s" "x = drop (3 * k) s"
      using repeat_blocks_mem [of x 2 5 s] by blast
    then have "2 \<le> k \<and> k \<le> 5 \<and> blocks k s \<and> pair_at (drop (3 * k) s) \<and> r = drop (3 * k + 2) s"
      using x by (simp add: add.commute)
    then show "\<exists>k. 2 \<le> k \<and> k \<le> 5 \<and> blocks k s \<and> pair_at (drop (3 * k) s) \<and> r = drop (3 * k + 2) s"
      by blast
  next
    assume "\<exists>k. 2 \<le> k \<and> k \<le> 5 \<and> blocks k s \<and> pair_at (drop (3 * k) s) \<and> r = drop (3 * k + 2) s"
    then obtain k where k: "2 \<le> k" "k \<le> 5" "blocks k s" "pair_at (drop (3 * k) s)"
        "r = drop (3 * k + 2) s"
      by blast
    then have "drop (3 * k) s \<in> set (repeat (matches re_block) 2 5 s)"
      using repeat_blocks_mem [of "drop (3 * k) s" 2 5 s] by blast
    then have "drop 2 (drop (3 * k) s) \<in> set (matches re_address s)"
      unfolding matches_address using k(4) by (simp del: drop_drop)
    moreover have "r = drop 2 (drop (3 * k) s)" using k by (simp add: add.commute)
    ultimately show "r \<in> set (matches re_address s)"
      by simp
  qed
  also have "\<dots> \<longleftrightarrow> (\<exists>k. 2 \<le> k \<and> k \<le> 5 \<and> (\<exists>t. s = t @ r \<and> groups (Suc k) t))"
    using groups_prefix [of s r] by simp
  also have "\<dots> \<longleftrightarrow> (\<exists>t. s = t @ r \<and> is_token t)"
  proof
    assume "\<exists>k. 2 \<le> k \<and> k \<le> 5 \<and> (\<exists>t. s = t @ r \<and> groups (Suc k) t)"
    then obtain k t where k: "2 \<le> k" "k \<le> 5" "s = t @ r" "groups (Suc k) t" by blast
    then have "k = 2 \<or> k = 3 \<or> k = 4 \<or> k = 5" by arith
    then have "is_token t"
      using k(4) unfolding is_token_def by (auto simp: eval_nat_numeral)
    then show "\<exists>t. s = t @ r \<and> is_token t" using k by blast
  next
    assume "\<exists>t. s = t @ r \<and> is_token t"
    then obtain t where t: "s = t @ r" "is_token t" by blast
    then consider "groups (Suc 2) t" | "groups (Suc 3) t" | "groups (Suc 4) t" | "groups (Suc 5) t"
      unfolding is_token_def by (auto simp: eval_nat_numeral)
    then show "\<exists>k. 2 \<le> k \<and> k \<le> 5 \<and> (\<exists>t. s = t @ r \<and> groups (Suc k) t)"
    proof cases
      case 1
      then have "(2 :: nat) \<le> 2 \<and> (2 :: nat) \<le> 5 \<and> (\<exists>t. s = t @ r \<and> groups (Suc 2) t)"
        using t(1) by auto
      then show ?thesis by (rule exI)
    next
      case 2
      then have "(2 :: nat) \<le> 3 \<and> (3 :: nat) \<le> 5 \<and> (\<exists>t. s = t @ r \<and> groups (Suc 3) t)"
        using t(1) by auto
      then show ?thesis by (rule exI)
    next
      case 3
      then have "(2 :: nat) \<le> 4 \<and> (4 :: nat) \<le> 5 \<and> (\<exists>t. s = t @ r \<and> groups (Suc 4) t)"
        using t(1) by auto
      then show ?thesis by (rule exI)
    next
      case 4
      then have "(2 :: nat) \<le> 5 \<and> (5 :: nat) \<le> 5 \<and> (\<exists>t. s = t @ r \<and> groups (Suc 5) t)"
        using t(1) by auto
      then show ?thesis by (rule exI)
    qed
  qed
  finally show ?thesis .
qed

lemma repeat_blocks_length:
  "r \<in> set (repeat (matches re_block) lo hi s) \<Longrightarrow> length r \<le> length s"
  using repeat_blocks_mem [of r lo hi s] by auto

lemma repeat_blocks_sorted:
  "sorted_wrt (\<lambda>a b. length a < length b) (repeat (matches re_block) lo hi s)"
proof (induction hi arbitrary: lo s)
  case 0
  show ?case by simp
next
  case (Suc hi)
  show ?case
  proof (cases "block_at s")
    case True
    have eq: "repeat (matches re_block) lo (Suc hi) s =
        repeat (matches re_block) (lo - 1) hi (drop 3 s) @ (if lo = 0 then [s] else [])"
      using True by (simp add: matches_block)
    have "length x < length s" if "x \<in> set (repeat (matches re_block) (lo - 1) hi (drop 3 s))" for x
      using repeat_blocks_length [OF that] block_at_length [OF True] by simp
    then show ?thesis
      unfolding eq using Suc.IH [of "lo - 1" "drop 3 s"]
      by (auto simp: sorted_wrt_append)
  next
    case False
    then have "repeat (matches re_block) lo (Suc hi) s = (if lo = 0 then [s] else [])"
      by (simp add: matches_block)
    then show ?thesis by (simp del: repeat.simps)
  qed
qed

lemma matches_address_sorted:
  "sorted_wrt (\<lambda>a b. length a < length b) (matches re_address s)"
proof -
  let ?xs = "filter pair_at (repeat (matches re_block) 2 5 s)"
  have "sorted_wrt (\<lambda>a b. length a < length b) ?xs"
    using repeat_blocks_sorted by (rule sorted_wrt_filter)
  then have "sorted_wrt (\<lambda>a b. length (drop 2 a) < length (drop 2 b)) ?xs"
  proof (rule sorted_wrt_mono_rel [rotated])
    fix x y
    assume "x \<in> set ?xs" "y \<in> set ?xs" "length x < length y"
    then show "length (drop 2 x) < length (drop 2 y)"
      using pair_at_length [of x] by auto
  qed
  then show ?thesis
    unfolding matches_address by (simp add: sorted_wrt_map)
qed

lemma matches_mask_nonempty: "matches re_mask r \<noteq> []"
  by (simp add: re_mask_def)

lemma match_here_empty: "match_here s = [] \<longleftrightarrow> matches re_address s = []"
  by (auto simp: match_here_def matches_mask_nonempty)

lemma match_here_head:
  assumes "match_here s = (g, r) # ms"
  shows "\<exists>r1 rs. matches re_address s = r1 # rs \<and> g = take (length s - length r1) s"
proof (cases "matches re_address s")
  case Nil
  then show ?thesis using assms by (simp add: match_here_def)
next
  case (Cons r1 rs)
  obtain m1 mrest where "matches re_mask r1 = m1 # mrest"
    using matches_mask_nonempty [of r1] by (cases "matches re_mask r1") auto
  then have "g = take (length s - length r1) s"
    using assms Cons by (simp add: match_here_def)
  then show ?thesis using Cons by blast
qed

lemma not_token_Nil: "\<not> is_token []"
  by (simp add: is_token_def eval_nat_numeral)

lemma match_here_token:
  assumes "match_here s = (g, r) # ms"
  shows "is_token g \<and> (\<exists>post. s = g @ post) \<and>
         (\<forall>t' post'. s = t' @ post' \<and> is_token t' \<longrightarrow> length t' \<le> length g)"
proof -
  obtain r1 rs where m: "matches re_address s = r1 # rs" and g: "g = take (length s - length r1) s"
    using match_here_head [OF assms] by blast
  have "r1 \<in> set (matches re_address s)" using m by simp
  then obtain t where t: "s = t @ r1" "is_token t"
    using matches_address_mem by blast
  have gt: "g = t" using g t by simp
  have "length t' \<le> length g" if "s = t' @ post'" "is_token t'" for t' post'
  proof -
    have "post' \<in> set (matches re_address s)"
      using that matches_address_mem by blast
    then have "post' = r1 \<or> post' \<in> set rs" using m by auto
    moreover have "\<forall>y \<in> set rs. length r1 < length y"
      using matches_address_sorted [of s] m by simp
    ultimately have "length r1 \<le> length post'" by auto
    moreover have "length t' + length post' = length t + length r1"
      using that(1) t(1) by (metis length_append)
    ultimately show ?thesis using gt by simp
  qed
  then show ?thesis using t gt by blast
qed

lemma no_match_here:
  "match_here s = [] \<longleftrightarrow> \<not> (\<exists>t post. s = t @ post \<and> is_token t)"
proof -
  have "matches re_address s = [] \<longleftrightarrow> (\<forall>r. r \<notin> set (matches re_address s))"
    by (cases "matches re_address s") auto
  then show ?thesis
    unfolding match_here_empty using matches_address_mem by blast
qed

lemma first_match_None:
  "first_match x = None \<longleftrightarrow> \<not> (\<exists>pre t post. x = pre @ t @ post \<and> is_token t)"
proof (induction x)
  case Nil
  have "match_here [] = []"
    using no_match_here [of "[]"] not_token_Nil by auto
  then show ?case using not_token_Nil by simp
next
  case (Cons c cs)
  show ?case
  proof (cases "match_here (c # cs)")
    case Nil
    then have n: "\<not> (\<exists>t post. c # cs = t @ post \<and> is_token t)"
      using no_match_here by blast
    have "(\<exists>pre t post. c # cs = pre @ t @ post \<and> is_token t) \<longleftrightarrow>
          (\<exists>pre t post. cs = pre @ t @ post \<and> is_token t)"
    proof
      assume "\<exists>pre t post. c # cs = pre @ t @ post \<and> is_token t"
      then obtain pre t post where p: "c # cs = pre @ t @ post" "is_token t" by blast
      then have "pre \<noteq> []" using n by auto
      then obtain p' where "pre = c # p'" "cs = p' @ t @ post"
        using p(1) by (cases pre) auto
      then show "\<exists>pre t post. cs = pre @ t @ post \<and> is_token t" using p(2) by blast
    next
      assume "\<exists>pre t post. cs = pre @ t @ post \<and> is_token t"
      then obtain pre t post where "cs = pre @ t @ post" "is_token t" by blast
      then have "c # cs = (c # pre) @ t @ post \<and> is_token t" by simp
      then show "\<exists>pre t post. c # cs = pre @ t @ post \<and> is_token t" by blast
    qed
    then show ?thesis using Nil Cons by simp
  next
    case (Cons m ms)
    obtain g r where "m = (g, r)" by (cases m)
    then have h: "match_here (c # cs) = (g, r) # ms" using Cons by simp
    then obtain post where "c # cs = [] @ g @ post" "is_token g"
      using match_here_token [OF h] by auto
    then have "\<exists>pre t post. c # cs = pre @ t @ post \<and> is_token t"
      by blast
    moreover have "first_match (c # cs) = Some g"
      using h by simp
    ultimately show ?thesis by simp
  qed
qed

lemma first_match_Some:
  "first_match x = Some g \<Longrightarrow>
   is_token g \<and>
   (\<exists>pre post. x = pre @ g @ post \<and>
      (\<forall>pre' t' post'. x = pre' @ t' @ post' \<and> is_token t' \<longrightarrow>
         length pre \<le> length pre' \<and> (length pre' = length pre \<longrightarrow> length t' \<le> length g)))"
proof (induction x)
  case Nil
  have "match_here [] = []"
    using no_match_here [of "[]"] not_token_Nil by auto
  then show ?case using Nil by simp
next
  case (Cons c cs)
  show ?case
  proof (cases "match_here (c # cs)")
    case Nil
    then have n: "\<not> (\<exists>t post. c # cs = t @ post \<and> is_token t)"
      using no_match_here by blast
    have "first_match cs = Some g" using Cons.prems Nil by simp
    then obtain pre post where tok: "is_token g" and p: "cs = pre @ g @ post"
      and least: "\<forall>pre' t' post'. cs = pre' @ t' @ post' \<and> is_token t' \<longrightarrow>
         length pre \<le> length pre' \<and> (length pre' = length pre \<longrightarrow> length t' \<le> length g)"
      using Cons.IH by blast
    have "length (c # pre) \<le> length pre' \<and> (length pre' = length (c # pre) \<longrightarrow> length t' \<le> length g)"
      if o: "c # cs = pre' @ t' @ post'" "is_token t'" for pre' t' post'
    proof -
      have "pre' \<noteq> []" using n o by auto
      then obtain p' where p': "pre' = c # p'" "cs = p' @ t' @ post'"
        using o(1) by (cases pre') auto
      then show ?thesis using least o(2) by auto
    qed
    moreover have "c # cs = (c # pre) @ g @ post" using p by simp
    ultimately show ?thesis using tok by blast
  next
    case (Cons m ms)
    obtain g' r where "m = (g', r)" by (cases m)
    then have h: "match_here (c # cs) = (g', r) # ms" using Cons by simp
    then have gg: "g' = g" using Cons.prems by simp
    obtain post where tok: "is_token g" and p: "c # cs = g @ post"
      and longest: "\<forall>t' post'. c # cs = t' @ post' \<and> is_token t' \<longrightarrow> length t' \<le> length g"
      using match_here_token [OF h] gg by blast
    have "length ([] :: string) \<le> length pre' \<and>
          (length pre' = length ([] :: string) \<longrightarrow> length t' \<le> length g)"
      if o: "c # cs = pre' @ t' @ post'" "is_token t'" for pre' t' post'
      using longest o by auto
    moreover have "c # cs = [] @ g @ post" using p by simp
    ultimately show ?thesis using tok by blast
  qed
qed

text \<open>
  C6, as the code has it. The pattern accepts the tokens of 3 to 6 groups of exactly two
  ASCII letters or digits, hexadecimal or not, with \<open>-\<close> or \<open>:\<close> between the groups.
  The first field of a line has no match exactly when no token occurs in it, and then the
  line is skipped. Otherwise the text handed to \<open>ParseMac\<close> is a token of the field: the
  leftmost one, and the longest of those that start there; what follows it in the field
  is not used. An error of \<open>ParseMac\<close> ends the scan; an address starts a record.
\<close>

theorem first_match_is_leftmost_token:
  "(first_match x = None \<longleftrightarrow> \<not> (\<exists>pre t post. x = pre @ t @ post \<and> is_token t)) \<and>
   (first_match x = Some g \<longrightarrow>
      is_token g \<and>
      (\<exists>pre post. x = pre @ g @ post \<and>
         (\<forall>pre' t' post'. x = pre' @ t' @ post' \<and> is_token t' \<longrightarrow>
            length pre \<le> length pre' \<and> (length pre' = length pre \<longrightarrow> length t' \<le> length g)))) \<and>
   (line \<noteq> [] \<and> hd line \<noteq> CHR ''#'' \<and>
    \<not> HasPrefix (TrimSpace (first_field line)) ''Generated: '' \<longrightarrow>
      (first_match (first_field line) = None \<longrightarrow>
         scan parse (line # rest) gen db = scan parse rest gen db) \<and>
      (\<forall>s err. first_match (first_field line) = Some s \<and> ParseMac s = Inl err \<longrightarrow>
         scan parse (line # rest) gen db = (gen, db, Some err)) \<and>
      (\<forall>s bt. first_match (first_field line) = Some s \<and> ParseMac s = Inr bt \<longrightarrow>
         scan parse (line # rest) gen db =
           addresses parse bt
             \<lparr>Manufacturer = last (Split line TAB), Address = [], Prefix = bt,
              Country = [], Local = False, Multicast = False\<rparr> rest gen db))"
proof (intro conjI impI allI)
  show "first_match x = None \<longleftrightarrow> \<not> (\<exists>pre t post. x = pre @ t @ post \<and> is_token t)"
    by (rule first_match_None)
next
  assume "first_match x = Some g"
  from first_match_Some [OF this]
  show "is_token g"
    and "\<exists>pre post. x = pre @ g @ post \<and>
         (\<forall>pre' t' post'. x = pre' @ t' @ post' \<and> is_token t' \<longrightarrow>
            length pre \<le> length pre' \<and> (length pre' = length pre \<longrightarrow> length t' \<le> length g))"
    by blast+
next
  assume a: "line \<noteq> [] \<and> hd line \<noteq> CHR ''#'' \<and>
    \<not> HasPrefix (TrimSpace (first_field line)) ''Generated: ''"
  {
    assume "first_match (first_field line) = None"
    then show "scan parse (line # rest) gen db = scan parse rest gen db"
      using a scan_no_match by blast
  }
  {
    fix s err
    assume "first_match (first_field line) = Some s \<and> ParseMac s = Inl err"
    then show "scan parse (line # rest) gen db = (gen, db, Some err)"
      using a scan_bad_address by blast
  }
  {
    fix s bt
    assume "first_match (first_field line) = Some s \<and> ParseMac s = Inr bt"
    then show "scan parse (line # rest) gen db =
           addresses parse bt
             \<lparr>Manufacturer = last (Split line TAB), Address = [], Prefix = bt,
              Country = [], Local = False, Multicast = False\<rparr> rest gen db"
      using a scan_record by blast
  }
qed

theorem first_match_is_leftmost_token_witness:
  "first_match ''x D0-DF-9A/24  (hex)'' = Some ''D0-DF-9A'' \<and> is_token ''D0-DF-9A'' \<and>
   first_match ''no token here'' = None \<and>
   \<not> (\<exists>pre t post. ''no token here'' = pre @ t @ post \<and> is_token t) \<and>
   scan (\<lambda>s. None :: nat option) [''no token here'' @ [TAB] @ ''X''] None Map.empty
     = (None, Map.empty, None)"
proof -
  let ?p = "\<lambda>s :: string. None :: nat option"
  let ?l = "''no token here'' @ [TAB] @ ''X''"
  have a: "first_match ''x D0-DF-9A/24  (hex)'' = Some ''D0-DF-9A''"
    by code_simp
  have b: "first_match ''no token here'' = None"
    by code_simp
  have c: "?l \<noteq> [] \<and> hd ?l \<noteq> CHR ''#'' \<and>
           \<not> HasPrefix (TrimSpace (first_field ?l)) ''Generated: ''"
    by code_simp
  have e: "first_match (first_field ?l) = None"
    by code_simp
  note t1 = first_match_is_leftmost_token [where x = "''x D0-DF-9A/24  (hex)''"
      and g = "''D0-DF-9A''" and line = ?l and parse = ?p and rest = "[]" and gen = None
      and db = Map.empty]
  note t2 = first_match_is_leftmost_token [where x = "''no token here''"
      and g = "''D0-DF-9A''" and line = ?l and parse = ?p and rest = "[]" and gen = None
      and db = Map.empty]
  have "is_token ''D0-DF-9A''"
    using t1 [THEN conjunct2, THEN conjunct1, THEN mp, OF a] by (rule conjunct1)
  moreover have "\<not> (\<exists>pre t post. ''no token here'' = pre @ t @ post \<and> is_token t)"
    using t2 [THEN conjunct1] b by (rule iffD1)
  moreover have "scan ?p [?l] None Map.empty = scan ?p [] None Map.empty"
    using t1 [THEN conjunct2, THEN conjunct2, THEN mp, OF c, THEN conjunct1, THEN mp, OF e] .
  then have "scan ?p [?l] None Map.empty = (None, Map.empty, None)"
    by (simp only: scan.simps(1))
  ultimately show ?thesis using a b by (intro conjI)
qed

text \<open>
  The claim as stated fails on the number of groups and on the characters. A first field
  of 2 hexadecimal groups has no match: the line is skipped, although \<open>ParseMac\<close> would
  reject the text. A token of letters that are no hexadecimal digits matches: the line
  is not skipped, \<open>ParseMac\<close> rejects the token and the scan ends with that error.
\<close>

theorem two_groups_do_not_match:
  "first_match ''AB-CD'' = None \<and>
   snd (snd (scanOUI (\<lambda>s. None :: nat option) [''AB-CD'' @ [TAB] @ ''X''] Map.empty)) = None \<and>
   ParseMac ''AB-CD'' = Inl (ErrInvalidMac MacTooShort ''AB-CD'') \<and>
   first_match ''zz-zz-zz'' = Some ''zz-zz-zz'' \<and>
   snd (snd (scanOUI (\<lambda>s. None :: nat option) [''zz-zz-zz'' @ [TAB] @ ''X''] Map.empty))
     = Some (ErrInvalidMac (ElementNotHex 1 ''zz'' ExpectedInteger) ''zz-zz-zz'')"
  by code_simp

subsection \<open>What a lookup hands out\<close>







end
